theory Spec2Isabelle
  imports Complex_Main "HOL-Library.Product_Lexorder"
begin

section \<open>The worker of django-toosimple-q: data model\<close>

text \<open>
  The worker command (\<^verbatim>\<open>management/commands/worker.py\<close>) polls a relational store of
  execution records. Datetimes and the float seconds of the tick interval are both
  idealised as real numbers of seconds; rounding of float arithmetic is not modelled.
\<close>

type_synonym time = real

datatype task_state = QUEUED | SLEEPING | PROCESSING | SUCCEEDED | FAILED | INVALID

datatype schedule_state = ACTIVE | SCHEDULE_INVALID

text \<open>A row of the \<^verbatim>\<open>TaskExec\<close> table. The identity of a row is its position in the table.\<close>

record task_exec =
  te_task_name :: string
  te_state :: task_state
  te_due :: time
  te_created :: time
  te_started :: "time option"
  te_result :: "string option"
  te_error :: "string option"

text \<open>A row of the \<^verbatim>\<open>ScheduleExec\<close> table.\<close>

record schedule_exec =
  se_name :: string
  se_state :: schedule_state
  se_last_run :: "time option"

text \<open>What calling a task's callable gives: a result, or a raised failure.\<close>

datatype outcome = Returned string | Raised string

text \<open>
  Modelled from the spec: the classes of the registry entries are not under src/. A Task
  Definition has a name (its unique key in the registry), a callable taking no
  engine-visible argument, an integer priority and a queue label. A Schedule Definition has
  a name, a queue, the task it enqueues and a recurrence rule; the rule maps the last-run
  instant of the bookkeeping row (\<open>None\<close> when it never ran) to the next due instant,
  and is \<open>None\<close> when the rule cannot be parsed.
\<close>

record task_def =
  td_name :: string
  td_callable :: "unit \<Rightarrow> outcome"
  td_priority :: int
  td_queue :: string

record schedule_def =
  sd_name :: string
  sd_queue :: string
  sd_task :: string
  sd_rule :: "time option \<Rightarrow> time option"

text \<open>
  Modelled from the spec: the registry class is not under src/. A registry maps the name of
  a definition to the definition, so it is the list of its definitions in insertion order,
  keyed by their names: \<^verbatim>\<open>keys()\<close> lists the names, \<^verbatim>\<open>values()\<close> the definitions,
  and subscripting raises \<^verbatim>\<open>KeyError\<close> on an unknown name.
\<close>

datatype error = KeyError string

definition registry_keys :: "('d \<Rightarrow> string) \<Rightarrow> 'd list \<Rightarrow> string list" where
  "registry_keys name_of reg = map name_of reg"

definition registry_values :: "'d list \<Rightarrow> 'd list" where
  "registry_values reg = reg"

definition registry_getitem :: "('d \<Rightarrow> string) \<Rightarrow> 'd list \<Rightarrow> string \<Rightarrow> error + 'd" where
  "registry_getitem name_of reg k =
     (case find (\<lambda>d. name_of d = k) reg of None \<Rightarrow> Inl (KeyError k) | Some d \<Rightarrow> Inr d)"

text \<open>
  Modelled from the spec: \<^verbatim>\<open>for_queue\<close> is not under src/. It filters the definitions by
  the queue inclusion list (run only these queues) or the exclusion list (run all except
  these); an option that was not given is \<open>None\<close> and filters nothing.
\<close>

definition for_queue ::
  "('d \<Rightarrow> string) \<Rightarrow> string list option \<Rightarrow> string list option \<Rightarrow> 'd list \<Rightarrow> 'd list" where
  "for_queue queue_of queues excluded_queues reg =
     filter (\<lambda>d. (case queues of None \<Rightarrow> True | Some qs \<Rightarrow> queue_of d \<in> set qs)
                \<and> (case excluded_queues of None \<Rightarrow> True | Some qs \<Rightarrow> queue_of d \<notin> set qs))
       (registry_values reg)"

section \<open>Querysets\<close>

text \<open>
  A queryset is the list of the rows it selects, each with its position in the table.
  \<^verbatim>\<open>filter\<close> and \<^verbatim>\<open>exclude\<close> keep or drop rows, \<^verbatim>\<open>order_by\<close> sorts by a key (rows with
  equal keys stay in table order, one of the orders a database may return),
  \<^verbatim>\<open>first\<close> gives the first row or nothing, \<^verbatim>\<open>update\<close> rewrites every selected row and
  returns how many rows it matched.
\<close>

type_synonym 'r queryset = "(nat \<times> 'r) list"

definition objects :: "'r list \<Rightarrow> 'r queryset" where
  "objects tbl = enumerate 0 tbl"

definition qs_filter :: "('r \<Rightarrow> bool) \<Rightarrow> 'r queryset \<Rightarrow> 'r queryset" where
  "qs_filter P qs = filter (\<lambda>(i, r). P r) qs"

definition qs_exclude :: "('r \<Rightarrow> bool) \<Rightarrow> 'r queryset \<Rightarrow> 'r queryset" where
  "qs_exclude P qs = filter (\<lambda>(i, r). \<not> P r) qs"

definition qs_order_by :: "('r \<Rightarrow> 'k::linorder) \<Rightarrow> 'r queryset \<Rightarrow> 'r queryset" where
  "qs_order_by key qs = sort_key (\<lambda>(i, r). key r) qs"

definition qs_first :: "'r queryset \<Rightarrow> (nat \<times> 'r) option" where
  "qs_first qs = (case qs of [] \<Rightarrow> None | x # _ \<Rightarrow> Some x)"

definition qs_update :: "('r \<Rightarrow> 'r) \<Rightarrow> 'r queryset \<Rightarrow> 'r list \<Rightarrow> nat \<times> 'r list" where
  "qs_update f qs tbl = (length qs, fold (\<lambda>(i, r) t. t[i := f (t ! i)]) qs tbl)"

definition save :: "nat \<times> 'r \<Rightarrow> 'r list \<Rightarrow> 'r list" where
  "save obj tbl = tbl[fst obj := snd obj]"

section \<open>The bulk updates of a tick\<close>

text \<open>Lines 104-108: schedule rows that are not INVALID and whose name is no registry key.\<close>

definition invalidate_schedules :: "schedule_def list \<Rightarrow> schedule_exec list \<Rightarrow> nat \<times> schedule_exec list" where
  "invalidate_schedules schedules_registry tbl =
     qs_update (\<lambda>r. r\<lparr>se_state := SCHEDULE_INVALID\<rparr>)
       (qs_exclude (\<lambda>r. se_name r \<in> set (registry_keys sd_name schedules_registry))
         (qs_exclude (\<lambda>r. se_state r = SCHEDULE_INVALID) (objects tbl)))
       tbl"

text \<open>Lines 114-118: task rows that are not INVALID and whose task name is no registry key.\<close>

definition invalidate_tasks :: "task_def list \<Rightarrow> task_exec list \<Rightarrow> nat \<times> task_exec list" where
  "invalidate_tasks tasks_registry tbl =
     qs_update (\<lambda>r. r\<lparr>te_state := INVALID\<rparr>)
       (qs_exclude (\<lambda>r. te_task_name r \<in> set (registry_keys td_name tasks_registry))
         (qs_exclude (\<lambda>r. te_state r = INVALID) (objects tbl)))
       tbl"

text \<open>Lines 130-132: SLEEPING rows whose due time is not after \<open>now\<close> become QUEUED.\<close>

definition wake_tasks :: "time \<Rightarrow> task_exec list \<Rightarrow> nat \<times> task_exec list" where
  "wake_tasks now tbl =
     qs_update (\<lambda>r. r\<lparr>te_state := QUEUED\<rparr>)
       (qs_filter (\<lambda>r. te_due r \<le> now)
         (qs_filter (\<lambda>r. te_state r = SLEEPING) (objects tbl)))
       tbl"

section \<open>The world of a worker\<close>

text \<open>
  The journal lists, in program order, the store operations and collaborator calls the
  worker issues: the two bulk invalidations and the bulk wake with the number of rows they
  matched, every call of a schedule's \<^verbatim>\<open>execute\<close> with what it returned, the claim with
  the position of the claimed row if there is one, the call of a task's \<^verbatim>\<open>execute\<close> with
  what it returned, and every \<^verbatim>\<open>time.sleep\<close> with its argument.
\<close>

datatype event =
    EvInvalidateSchedules nat
  | EvInvalidateTasks nat
  | EvScheduleExecute string bool
  | EvWake nat
  | EvClaim "nat option"
  | EvTaskExecute nat bool
  | EvSleep real

text \<open>
  The clock advances between two readings by an amount the environment gives
  (\<open>elapse\<close>, one entry for each future reading), and by the argument of each sleep.
\<close>

record world =
  task_execs :: "task_exec list"
  schedule_execs :: "schedule_exec list"
  clock :: time
  elapse :: "time list"
  journal :: "event list"

definition timezone_now :: "world \<Rightarrow> time \<times> world" where
  "timezone_now w =
     (case elapse w of
        [] \<Rightarrow> (clock w, w)
      | d # ds \<Rightarrow> (clock w + d, w\<lparr>clock := clock w + d, elapse := ds\<rparr>))"

definition time_sleep :: "real \<Rightarrow> world \<Rightarrow> world" where
  "time_sleep secs w = w\<lparr>clock := clock w + secs, journal := journal w @ [EvSleep secs]\<rparr>"

definition record_event :: "event \<Rightarrow> world \<Rightarrow> world" where
  "record_event e w = w\<lparr>journal := journal w @ [e]\<rparr>"

section \<open>The collaborators of the tick\<close>

text \<open>
  Modelled from the spec: the lookup of a schedule's bookkeeping row is not under src/. The
  ScheduleExec row of a registered schedule is created on first sight, ACTIVE and never run.
\<close>

definition get_or_create_schedule_exec :: "string \<Rightarrow> schedule_exec list \<Rightarrow> nat \<times> schedule_exec list" where
  "get_or_create_schedule_exec n tbl =
     (case qs_first (qs_filter (\<lambda>r. se_name r = n) (objects tbl)) of
        Some (i, r) \<Rightarrow> (i, tbl)
      | None \<Rightarrow> (length tbl, tbl @ [\<lparr>se_name = n, se_state = ACTIVE, se_last_run = None\<rparr>]))"

text \<open>
  Modelled from the spec: \<^verbatim>\<open>Schedule.execute\<close> is not under src/. The schedule is due
  when the next due instant its rule derives from the bookkeeping row has arrived; a due
  schedule creates a QUEUED TaskExec of its task with \<open>due = created = now\<close> and
  advances its bookkeeping. A schedule whose rule cannot be parsed is skipped. The result
  says whether the schedule fired.
\<close>

definition schedule_execute :: "schedule_def \<Rightarrow> real \<Rightarrow> world \<Rightarrow> bool \<times> world" where
  "schedule_execute schedule tick_duration w =
     (let (i, stbl) = get_or_create_schedule_exec (sd_name schedule) (schedule_execs w);
          w1 = w\<lparr>schedule_execs := stbl\<rparr>;
          (now, w2) = timezone_now w1
      in case sd_rule schedule (se_last_run (stbl ! i)) of
           None \<Rightarrow> (False, record_event (EvScheduleExecute (sd_name schedule) False) w2)
         | Some next_due \<Rightarrow>
             if next_due \<le> now
             then (True, record_event (EvScheduleExecute (sd_name schedule) True)
                    (w2\<lparr>task_execs := task_execs w2 @
                           [\<lparr>te_task_name = sd_task schedule, te_state = QUEUED, te_due = now,
                             te_created = now, te_started = None, te_result = None,
                             te_error = None\<rparr>],
                         schedule_execs := stbl[i := (stbl ! i)\<lparr>se_last_run := Some now\<rparr>]\<rparr>))
             else (False, record_event (EvScheduleExecute (sd_name schedule) False) w2))"

text \<open>
  Modelled from the spec: \<^verbatim>\<open>Task.execute\<close> is not under src/. It invokes the callable of
  the definition; on a normal return the claimed row becomes SUCCEEDED and stores the
  result, on a raised failure it becomes FAILED and stores the failure detail. The failure
  does not propagate. The result says whether execution happened, which is always so.
  Effects of the callable on the store are not modelled.
\<close>

definition task_execute :: "task_def \<Rightarrow> nat \<times> task_exec \<Rightarrow> world \<Rightarrow> bool \<times> world" where
  "task_execute task task_exec w =
     (let (i, r) = task_exec;
          r' = (case td_callable task () of
                  Returned v \<Rightarrow> r\<lparr>te_state := SUCCEEDED, te_result := Some v\<rparr>
                | Raised e \<Rightarrow> r\<lparr>te_state := FAILED, te_error := Some e\<rparr>)
      in (True, record_event (EvTaskExecute i True) (w\<lparr>task_execs := save (i, r') (task_execs w)\<rparr>)))"

section \<open>The tick\<close>

text \<open>Lines 103-120: the two invalidations, schedules first.\<close>

definition disable_orphans :: "task_def list \<Rightarrow> schedule_def list \<Rightarrow> world \<Rightarrow> world" where
  "disable_orphans tasks_registry schedules_registry w =
     (let (count, stbl) = invalidate_schedules schedules_registry (schedule_execs w);
          w1 = record_event (EvInvalidateSchedules count) (w\<lparr>schedule_execs := stbl\<rparr>);
          (count, ttbl) = invalidate_tasks tasks_registry (task_execs w1)
      in record_event (EvInvalidateTasks count) (w1\<lparr>task_execs := ttbl\<rparr>))"

text \<open>Lines 126-127: the loop over the schedules to check.\<close>

fun check_schedules :: "schedule_def list \<Rightarrow> real \<Rightarrow> bool \<Rightarrow> world \<Rightarrow> bool \<times> world" where
  "check_schedules [] tick_duration did_something w = (did_something, w)"
| "check_schedules (schedule # rest) tick_duration did_something w =
     (let (b, w') = schedule_execute schedule tick_duration w
      in check_schedules rest tick_duration (did_something \<or> b) w')"

text \<open>What the calls of that loop return, in order, when it starts from the world \<open>w\<close>.\<close>

fun schedule_results :: "schedule_def list \<Rightarrow> real \<Rightarrow> world \<Rightarrow> bool list" where
  "schedule_results [] tick_duration w = []"
| "schedule_results (schedule # rest) tick_duration w =
     (let (b, w') = schedule_execute schedule tick_duration w
      in b # schedule_results rest tick_duration w')"

text \<open>Lines 130-132: the wake, at the time read then.\<close>

definition wake_up :: "world \<Rightarrow> world" where
  "wake_up w =
     (let (now, w1) = timezone_now w;
          (count, ttbl) = wake_tasks now (task_execs w1)
      in record_event (EvWake count) (w1\<lparr>task_execs := ttbl\<rparr>))"

text \<open>
  Lines 136-142: the ordering clause compiled from the registry. The first \<^verbatim>\<open>When\<close> whose
  task name matches gives minus the priority; the default is 0.
\<close>

fun order_by_priority_clause :: "task_def list \<Rightarrow> task_exec \<Rightarrow> int" where
  "order_by_priority_clause [] r = 0"
| "order_by_priority_clause (task # rest) r =
     (if te_task_name r = td_name task then - td_priority task
      else order_by_priority_clause rest r)"

text \<open>Lines 143-146: the queryset of the rows to claim from, in claim order.\<close>

definition tasks_execs ::
  "task_def list \<Rightarrow> string list option \<Rightarrow> string list option \<Rightarrow> task_exec list \<Rightarrow> task_exec queryset" where
  "tasks_execs tasks_registry queues excluded_queues tbl =
     (let tasks_to_check = for_queue td_queue queues excluded_queues tasks_registry
      in qs_order_by
           (\<lambda>r. (order_by_priority_clause (registry_values tasks_registry) r, te_due r, te_created r))
           (qs_filter (\<lambda>r. te_task_name r \<in> set (map td_name tasks_to_check))
             (qs_filter (\<lambda>r. te_state r = QUEUED) (objects tbl))))"

text \<open>
  Lines 147-152: the claim. The transaction and the row lock make the selection and the
  save one step for every other worker; here they are one function of the store.
\<close>

definition claim ::
  "task_def list \<Rightarrow> string list option \<Rightarrow> string list option \<Rightarrow> world
     \<Rightarrow> (nat \<times> task_exec) option \<times> world" where
  "claim tasks_registry queues excluded_queues w =
     (case qs_first (tasks_execs tasks_registry queues excluded_queues (task_execs w)) of
        None \<Rightarrow> (None, record_event (EvClaim None) w)
      | Some (i, r) \<Rightarrow>
          (let (now, w1) = timezone_now w;
               task_exec = (i, r\<lparr>te_started := Some now, te_state := PROCESSING\<rparr>)
           in (Some task_exec,
               record_event (EvClaim (Some i)) (w1\<lparr>task_execs := save task_exec (task_execs w1)\<rparr>))))"

text \<open>Lines 100-152: the tick up to the claim, with the claimed row if there is one.\<close>

definition tick_claim ::
  "task_def list \<Rightarrow> schedule_def list \<Rightarrow> string list option \<Rightarrow> string list option \<Rightarrow> real
     \<Rightarrow> world \<Rightarrow> bool \<times> (nat \<times> task_exec) option \<times> world" where
  "tick_claim tasks_registry schedules_registry queues excluded_queues tick_duration w =
     (let did_something = False;
          w1 = disable_orphans tasks_registry schedules_registry w;
          schedules_to_check = for_queue sd_queue queues excluded_queues schedules_registry;
          (did_something, w2) = check_schedules schedules_to_check tick_duration did_something w1;
          w3 = wake_up w2;
          (task_exec, w4) = claim tasks_registry queues excluded_queues w3
      in (did_something, task_exec, w4))"

text \<open>Lines 97-158: one tick. \<open>Inl\<close> is an exception that leaves the tick.\<close>

definition tick ::
  "task_def list \<Rightarrow> schedule_def list \<Rightarrow> string list option \<Rightarrow> string list option \<Rightarrow> real
     \<Rightarrow> world \<Rightarrow> error + (bool \<times> world)" where
  "tick tasks_registry schedules_registry queues excluded_queues tick_duration w =
     (let (did_something, task_exec, w4) =
            tick_claim tasks_registry schedules_registry queues excluded_queues tick_duration w
      in case task_exec of
           None \<Rightarrow> Inr (did_something, w4)
         | Some te \<Rightarrow>
             (case registry_getitem td_name tasks_registry (te_task_name (snd te)) of
                Inl e \<Rightarrow> Inl e
              | Inr task \<Rightarrow>
                  (let (b, w5) = task_execute task te w4
                   in Inr (did_something \<or> b, w5))))"

section \<open>The outer loop\<close>

record options =
  opt_queue :: "string list option"
  opt_exclude_queue :: "string list option"
  opt_once :: bool
  opt_until_done :: bool
  opt_tick :: real

text \<open>
  How a run of the loop ends within a bound on its ticks: it left the loop
  (\<open>Exited\<close>), an exception left it (\<open>Crashed\<close>), or it is still looping when the
  bound is reached (\<open>Running\<close>). Each carries what the ticks returned, in order.
\<close>

datatype run = Exited "bool list" world | Crashed "bool list" error | Running "bool list" world

fun push :: "bool \<Rightarrow> run \<Rightarrow> run" where
  "push b (Exited h w) = Exited (b # h) w"
| "push b (Crashed h e) = Crashed (b # h) e"
| "push b (Running h w) = Running (b # h) w"

text \<open>Lines 79-95: the loop, run for at most \<open>n\<close> ticks.\<close>

fun handle_loop ::
  "nat \<Rightarrow> task_def list \<Rightarrow> schedule_def list \<Rightarrow> options \<Rightarrow> time \<Rightarrow> world \<Rightarrow> run" where
  "handle_loop 0 tasks_registry schedules_registry opts last_run w = Running [] w"
| "handle_loop (Suc n) tasks_registry schedules_registry opts last_run w =
     (case tick tasks_registry schedules_registry (opt_queue opts) (opt_exclude_queue opts)
             (opt_tick opts) w of
        Inl e \<Rightarrow> Crashed [] e
      | Inr (did_something, w1) \<Rightarrow>
          if opt_once opts then Exited [did_something] w1
          else if opt_until_done opts \<and> \<not> did_something then Exited [did_something] w1
          else
            (let w3 = (if \<not> did_something
                       then (let (now, w2) = timezone_now w1;
                                 dt = now - last_run
                             in time_sleep (max 0 (opt_tick opts - dt)) w2)
                       else w1);
                 (last_run', w4) = timezone_now w3
             in push did_something
                  (handle_loop n tasks_registry schedules_registry opts last_run' w4)))"

text \<open>Lines 78-95: the loop from its start.\<close>

definition handle :: "nat \<Rightarrow> task_def list \<Rightarrow> schedule_def list \<Rightarrow> options \<Rightarrow> world \<Rightarrow> run" where
  "handle n tasks_registry schedules_registry opts w =
     (let (last_run, w0) = timezone_now w
      in handle_loop n tasks_registry schedules_registry opts last_run w0)"

section \<open>The notions of the specification\<close>

text \<open>
  These three definitions follow the words of the specification, to be compared with what
  the code computes. The priority of a task name is the priority of the definition
  registered under it, and 0 when there is none.
\<close>

definition spec_priority :: "task_def list \<Rightarrow> string \<Rightarrow> int" where
  "spec_priority tasks_registry n =
     (case find (\<lambda>t. td_name t = n) tasks_registry of None \<Rightarrow> 0 | Some t \<Rightarrow> td_priority t)"

text \<open>
  A row is eligible when it is QUEUED and its task name is the name of a registered
  definition whose queue passes the worker's filter.
\<close>

definition spec_eligible ::
  "task_def list \<Rightarrow> string list option \<Rightarrow> string list option \<Rightarrow> task_exec \<Rightarrow> bool" where
  "spec_eligible tasks_registry queues excluded_queues r \<longleftrightarrow>
     te_state r = QUEUED \<and>
     te_task_name r \<in> td_name ` {t \<in> set tasks_registry.
        (case queues of None \<Rightarrow> True | Some qs \<Rightarrow> td_queue t \<in> set qs) \<and>
        (case excluded_queues of None \<Rightarrow> True | Some qs \<Rightarrow> td_queue t \<notin> set qs)}"

text \<open>
  Row \<open>r\<close> is not after row \<open>r'\<close> in claim order: higher priority first, then earlier
  due, then earlier created.
\<close>

definition spec_not_after :: "task_def list \<Rightarrow> task_exec \<Rightarrow> task_exec \<Rightarrow> bool" where
  "spec_not_after tasks_registry r r' \<longleftrightarrow>
     spec_priority tasks_registry (te_task_name r') < spec_priority tasks_registry (te_task_name r)
     \<or> (spec_priority tasks_registry (te_task_name r') = spec_priority tasks_registry (te_task_name r)
        \<and> (te_due r < te_due r' \<or> (te_due r = te_due r' \<and> te_created r \<le> te_created r')))"

section \<open>An example store\<close>

text \<open>
  Two registered tasks, one whose callable returns and one whose callable raises, a daily
  schedule of the first, and a store at time 100 with a row of an unregistered task, a
  SLEEPING row that is due and one that is not.
\<close>

definition ex_send_email :: task_def where
  "ex_send_email = \<lparr>td_name = ''send_email'', td_callable = (\<lambda>_. Returned ''sent''),
     td_priority = 5, td_queue = ''default''\<rparr>"

definition ex_boom :: task_def where
  "ex_boom = \<lparr>td_name = ''boom'', td_callable = (\<lambda>_. Raised ''ValueError: boom''),
     td_priority = 9, td_queue = ''default''\<rparr>"

definition ex_daily_report :: schedule_def where
  "ex_daily_report = \<lparr>sd_name = ''daily_report'', sd_queue = ''default'', sd_task = ''send_email'',
     sd_rule = (\<lambda>last. case last of None \<Rightarrow> Some 0 | Some t \<Rightarrow> Some (t + 86400))\<rparr>"

definition ex_row :: "string \<Rightarrow> task_state \<Rightarrow> time \<Rightarrow> time \<Rightarrow> task_exec" where
  "ex_row n s d c = \<lparr>te_task_name = n, te_state = s, te_due = d, te_created = c,
     te_started = None, te_result = None, te_error = None\<rparr>"

definition ex_world :: world where
  "ex_world = \<lparr>task_execs =
       [ex_row ''send_email'' QUEUED 5 1, ex_row ''gone'' QUEUED 1 1,
        ex_row ''boom'' SLEEPING 99 2, ex_row ''boom'' SLEEPING 3700 2],
     schedule_execs = [\<lparr>se_name = ''old_schedule'', se_state = ACTIVE, se_last_run = None\<rparr>],
     clock = 100, elapse = [], journal = []\<rparr>"

definition ex_options :: options where
  "ex_options = \<lparr>opt_queue = None, opt_exclude_queue = None, opt_once = False,
     opt_until_done = False, opt_tick = 10\<rparr>"

text \<open>
  The example store after the claim of a tick with both tasks and the daily schedule
  registered, and after the whole tick: the schedule has fired, the due SLEEPING row has
  been woken and claimed, and its callable has raised.
\<close>

definition ex_after_claim :: world where
  "ex_after_claim = \<lparr>task_execs =
       [ex_row ''send_email'' QUEUED 5 1, ex_row ''gone'' INVALID 1 1,
        (ex_row ''boom'' PROCESSING 99 2)\<lparr>te_started := Some 100\<rparr>,
        ex_row ''boom'' SLEEPING 3700 2, ex_row ''send_email'' QUEUED 100 100],
     schedule_execs =
       [\<lparr>se_name = ''old_schedule'', se_state = SCHEDULE_INVALID, se_last_run = None\<rparr>,
        \<lparr>se_name = ''daily_report'', se_state = ACTIVE, se_last_run = Some 100\<rparr>],
     clock = 100, elapse = [],
     journal = [EvInvalidateSchedules 1, EvInvalidateTasks 1,
                EvScheduleExecute ''daily_report'' True, EvWake 1, EvClaim (Some 2)]\<rparr>"

definition ex_after_tick :: world where
  "ex_after_tick = ex_after_claim\<lparr>task_execs :=
       [ex_row ''send_email'' QUEUED 5 1, ex_row ''gone'' INVALID 1 1,
        (ex_row ''boom'' FAILED 99 2)\<lparr>te_started := Some 100, te_error := Some ''ValueError: boom''\<rparr>,
        ex_row ''boom'' SLEEPING 3700 2, ex_row ''send_email'' QUEUED 100 100],
     journal := [EvInvalidateSchedules 1, EvInvalidateTasks 1,
                 EvScheduleExecute ''daily_report'' True, EvWake 1, EvClaim (Some 2),
                 EvTaskExecute 2 True]\<rparr>"

text \<open>A store with four QUEUED rows to claim from, and one row of an unregistered task.\<close>

definition ex_queued_world :: world where
  "ex_queued_world = \<lparr>task_execs =
       [ex_row ''send_email'' QUEUED 5 1, ex_row ''boom'' QUEUED 9 2,
        ex_row ''boom'' QUEUED 7 3, ex_row ''boom'' QUEUED 7 1, ex_row ''gone'' QUEUED 0 0],
     schedule_execs = [], clock = 100, elapse = [2], journal = []\<rparr>"

text \<open>A store with nothing to do, where the clock reads 3 seconds later at the next reading.\<close>

definition ex_idle_world :: world where
  "ex_idle_world = \<lparr>task_execs = [], schedule_execs = [], clock = 100, elapse = [3, 0],
     journal = []\<rparr>"

text \<open>What the ticks of a run returned, and the journal the run ended with.\<close>

fun run_history :: "run \<Rightarrow> bool list" where
  "run_history (Exited h w) = h"
| "run_history (Crashed h e) = h"
| "run_history (Running h w) = h"

fun run_journal :: "run \<Rightarrow> event list" where
  "run_journal (Exited h w) = journal w"
| "run_journal (Crashed h e) = []"
| "run_journal (Running h w) = journal w"

section \<open>Querysets over a table\<close>

lemma objects_set: "(i, r) \<in> set (objects tbl) \<longleftrightarrow> i < length tbl \<and> r = tbl ! i"
  by (auto simp: objects_def in_set_enumerate_eq)

lemma map_fst_objects: "map fst (objects tbl) = [0..<length tbl]"
  by (simp add: objects_def)

lemma distinct_fst_filter_objects: "distinct (map fst (filter Q (objects tbl)))"
  by (simp add: objects_def distinct_map_filter)

lemma fold_update_length:
  "length (fold (\<lambda>(i, r) t. t[i := f (t ! i)]) qs tbl) = length tbl"
  by (induction qs arbitrary: tbl) (auto split: prod.splits)

lemma fold_update_nth:
  "distinct (map fst qs) \<Longrightarrow> j < length tbl \<Longrightarrow>
   fold (\<lambda>(i, r) t. t[i := f (t ! i)]) qs tbl ! j =
     (if j \<in> fst ` set qs then f (tbl ! j) else tbl ! j)"
proof (induction qs arbitrary: tbl)
  case Nil
  then show ?case by simp
next
  case (Cons q qs)
  obtain i r where q: "q = (i, r)" by (cases q)
  from Cons.prems have d: "distinct (map fst qs)" and ni: "i \<notin> fst ` set qs"
    by (auto simp: q)
  have "fold (\<lambda>(i, r) t. t[i := f (t ! i)]) (q # qs) tbl ! j =
        fold (\<lambda>(i, r) t. t[i := f (t ! i)]) qs (tbl[i := f (tbl ! i)]) ! j"
    by (simp add: q)
  also have "\<dots> = (if j \<in> fst ` set qs then f (tbl[i := f (tbl ! i)] ! j) else tbl[i := f (tbl ! i)] ! j)"
    using Cons.IH [OF d, of "tbl[i := f (tbl ! i)]"] Cons.prems(2) by simp
  also have "\<dots> = (if j \<in> fst ` set (q # qs) then f (tbl ! j) else tbl ! j)"
  proof (cases "j = i")
    case True
    then show ?thesis using ni Cons.prems(2) by (simp add: q)
  next
    case False
    then show ?thesis by (simp add: q)
  qed
  finally show ?case .
qed

lemma qs_update_filter_objects:
  "snd (qs_update f (filter (\<lambda>(i, r). P r) (objects tbl)) tbl) = map (\<lambda>r. if P r then f r else r) tbl"
proof (rule nth_equalityI)
  show "length (snd (qs_update f (filter (\<lambda>(i, r). P r) (objects tbl)) tbl)) =
        length (map (\<lambda>r. if P r then f r else r) tbl)"
    by (simp add: qs_update_def fold_update_length)
next
  fix j assume "j < length (snd (qs_update f (filter (\<lambda>(i, r). P r) (objects tbl)) tbl))"
  then have j: "j < length tbl" by (simp add: qs_update_def fold_update_length)
  have mem: "j \<in> fst ` set (filter (\<lambda>(i, r). P r) (objects tbl)) \<longleftrightarrow> P (tbl ! j)"
    using j by (force simp: objects_set)
  show "snd (qs_update f (filter (\<lambda>(i, r). P r) (objects tbl)) tbl) ! j =
        map (\<lambda>r. if P r then f r else r) tbl ! j"
    using j mem by (simp add: qs_update_def fold_update_nth distinct_fst_filter_objects)
qed

lemma qs_update_count:
  "fst (qs_update f (filter (\<lambda>(i, r). P r) (objects tbl)) tbl) = length (filter P tbl)"
proof -
  have "map snd (filter (\<lambda>(i, r). P r) (enumerate n tbl)) = filter P tbl" for n
    by (induction tbl arbitrary: n) auto
  then have "length (filter (\<lambda>(i, r). P r) (objects tbl)) = length (filter P tbl)"
    unfolding objects_def by (metis length_map)
  then show ?thesis by (simp add: qs_update_def)
qed

lemma qs_filter_objects: "qs_filter P (objects tbl) = filter (\<lambda>(i, r). P r) (objects tbl)"
  by (simp add: qs_filter_def)

lemma qs_exclude_objects: "qs_exclude P (objects tbl) = filter (\<lambda>(i, r). \<not> P r) (objects tbl)"
  by (simp add: qs_exclude_def)

lemma qs_filter_filter:
  "qs_filter P (filter (\<lambda>(i, r). Q r) qs) = filter (\<lambda>(i, r). Q r \<and> P r) qs"
  unfolding qs_filter_def by (induction qs) auto

lemma qs_exclude_filter:
  "qs_exclude P (filter (\<lambda>(i, r). Q r) qs) = filter (\<lambda>(i, r). Q r \<and> \<not> P r) qs"
  unfolding qs_exclude_def by (induction qs) auto

lemmas qs_normal = qs_filter_objects qs_exclude_objects qs_filter_filter qs_exclude_filter

lemma wake_tasks_map:
  "snd (wake_tasks now tbl) =
     map (\<lambda>r. if te_state r = SLEEPING \<and> te_due r \<le> now then r\<lparr>te_state := QUEUED\<rparr> else r) tbl"
  unfolding wake_tasks_def qs_normal by (rule qs_update_filter_objects)

lemma wake_tasks_count:
  "fst (wake_tasks now tbl) = length (filter (\<lambda>r. te_state r = SLEEPING \<and> te_due r \<le> now) tbl)"
  unfolding wake_tasks_def qs_normal by (rule qs_update_count)

lemma invalidate_tasks_map:
  "snd (invalidate_tasks reg tbl) =
     map (\<lambda>r. if te_state r \<noteq> INVALID \<and> te_task_name r \<notin> set (registry_keys td_name reg)
               then r\<lparr>te_state := INVALID\<rparr> else r) tbl"
  unfolding invalidate_tasks_def qs_normal by (rule qs_update_filter_objects)

lemma invalidate_tasks_count:
  "fst (invalidate_tasks reg tbl) =
     length (filter (\<lambda>r. te_state r \<noteq> INVALID \<and> te_task_name r \<notin> set (registry_keys td_name reg)) tbl)"
  unfolding invalidate_tasks_def qs_normal by (rule qs_update_count)

lemma invalidate_schedules_map:
  "snd (invalidate_schedules reg tbl) =
     map (\<lambda>r. if se_state r \<noteq> SCHEDULE_INVALID \<and> se_name r \<notin> set (registry_keys sd_name reg)
               then r\<lparr>se_state := SCHEDULE_INVALID\<rparr> else r) tbl"
  unfolding invalidate_schedules_def qs_normal by (rule qs_update_filter_objects)

lemma invalidate_schedules_count:
  "fst (invalidate_schedules reg tbl) =
     length (filter (\<lambda>r. se_state r \<noteq> SCHEDULE_INVALID \<and> se_name r \<notin> set (registry_keys sd_name reg)) tbl)"
  unfolding invalidate_schedules_def qs_normal by (rule qs_update_count)

lemma qs_first_None: "qs_first qs = None \<longleftrightarrow> qs = []"
  by (simp add: qs_first_def split: list.splits)

lemma qs_first_order_by_None: "qs_first (qs_order_by key qs) = None \<longleftrightarrow> qs = []"
proof -
  have "length (sort_key (\<lambda>(i, r). key r) qs) = length qs" by simp
  then have "sort_key (\<lambda>(i, r). key r) qs = [] \<longleftrightarrow> qs = []"
    by (metis length_0_conv)
  then show ?thesis by (simp add: qs_first_None qs_order_by_def)
qed

lemma qs_first_order_by_Some:
  assumes "qs_first (qs_order_by key qs) = Some (i, r)"
  shows "(i, r) \<in> set qs \<and> (\<forall>(j, r') \<in> set qs. key r \<le> key r')"
proof -
  from assms obtain rest where s: "sort_key (\<lambda>(i, r). key r) qs = (i, r) # rest"
    by (auto simp: qs_first_def qs_order_by_def split: list.splits)
  have "set (sort_key (\<lambda>(i, r). key r) qs) = set qs" by simp
  with s have mem: "(i, r) \<in> set qs" and sub: "set qs = insert (i, r) (set rest)"
    by auto
  have "sorted (map (\<lambda>(i, r). key r) (sort_key (\<lambda>(i, r). key r) qs))"
    by (rule sorted_sort_key)
  with s have "\<forall>x \<in> set rest. key r \<le> (\<lambda>(i, r). key r) x" by auto
  with sub mem show ?thesis by auto
qed

lemma order_by_priority_clause_spec:
  "order_by_priority_clause reg r = - spec_priority reg (te_task_name r)"
  by (induction reg) (auto simp: spec_priority_def)

lemma claim_key_le:
  "(order_by_priority_clause reg r, te_due r, te_created r)
     \<le> (order_by_priority_clause reg r', te_due r', te_created r')
   \<longleftrightarrow> spec_not_after reg r r'"
  by (auto simp: order_by_priority_clause_spec spec_not_after_def less_eq_prod_simp)

lemma tasks_execs_set:
  "(i, r) \<in> set (tasks_execs reg q e tbl) \<longleftrightarrow>
     i < length tbl \<and> r = tbl ! i \<and> spec_eligible reg q e r"
  unfolding tasks_execs_def Let_def qs_order_by_def qs_normal
  by (auto simp: objects_set spec_eligible_def for_queue_def registry_values_def)

lemma tasks_execs_first_None:
  "qs_first (tasks_execs reg q e tbl) = None \<longleftrightarrow> (\<forall>r \<in> set tbl. \<not> spec_eligible reg q e r)"
proof -
  have "qs_first (tasks_execs reg q e tbl) = None \<longleftrightarrow> set (tasks_execs reg q e tbl) = {}"
    by (simp add: qs_first_None)
  also have "\<dots> \<longleftrightarrow> (\<forall>i r. (i, r) \<notin> set (tasks_execs reg q e tbl))"
    by (metis all_not_in_conv surj_pair)
  also have "\<dots> \<longleftrightarrow> (\<forall>r \<in> set tbl. \<not> spec_eligible reg q e r)"
    unfolding tasks_execs_set by (metis in_set_conv_nth)
  finally show ?thesis .
qed

lemma tasks_execs_first_Some:
  assumes "qs_first (tasks_execs reg q e tbl) = Some (i, r)"
  shows "i < length tbl \<and> r = tbl ! i \<and> spec_eligible reg q e r
         \<and> (\<forall>r' \<in> set tbl. spec_eligible reg q e r' \<longrightarrow> spec_not_after reg r r')"
proof -
  let ?key = "\<lambda>r. (order_by_priority_clause (registry_values reg) r, te_due r, te_created r)"
  let ?qs = "qs_filter (\<lambda>r. te_task_name r \<in> set (map td_name (for_queue td_queue q e reg)))
               (qs_filter (\<lambda>r. te_state r = QUEUED) (objects tbl))"
  have eq: "tasks_execs reg q e tbl = qs_order_by ?key ?qs"
    by (simp add: tasks_execs_def)
  have same: "set (tasks_execs reg q e tbl) = set ?qs"
    by (simp add: eq qs_order_by_def)
  from assms have f: "qs_first (qs_order_by ?key ?qs) = Some (i, r)" by (simp add: eq)
  from qs_first_order_by_Some [OF f]
  have mem: "(i, r) \<in> set ?qs" and least: "\<forall>(j, r') \<in> set ?qs. ?key r \<le> ?key r'" by auto
  from mem have "(i, r) \<in> set (tasks_execs reg q e tbl)" unfolding same .
  then have m: "i < length tbl \<and> r = tbl ! i \<and> spec_eligible reg q e r"
    unfolding tasks_execs_set .
  have "spec_not_after reg r r'" if "r' \<in> set tbl" "spec_eligible reg q e r'" for r'
  proof -
    from that obtain j where "j < length tbl" "r' = tbl ! j" by (auto simp: in_set_conv_nth)
    with that have "(j, r') \<in> set (tasks_execs reg q e tbl)" unfolding tasks_execs_set by simp
    then have "(j, r') \<in> set ?qs" unfolding same .
    with least have "?key r \<le> ?key r'" by blast
    then show ?thesis unfolding registry_values_def claim_key_le .
  qed
  with m show ?thesis by blast
qed

subsection \<open>What each step of a tick does to the world\<close>

lemma timezone_now_frame:
  "task_execs (snd (timezone_now w)) = task_execs w"
  "schedule_execs (snd (timezone_now w)) = schedule_execs w"
  "journal (snd (timezone_now w)) = journal w"
  by (simp_all add: timezone_now_def split: list.splits)

lemma record_event_frame:
  "task_execs (record_event ev w) = task_execs w"
  "schedule_execs (record_event ev w) = schedule_execs w"
  "clock (record_event ev w) = clock w"
  "elapse (record_event ev w) = elapse w"
  "journal (record_event ev w) = journal w @ [ev]"
  by (simp_all add: record_event_def)

lemma wake_up_tasks:
  "task_execs (wake_up w) =
     map (\<lambda>r. if te_state r = SLEEPING \<and> te_due r \<le> fst (timezone_now w)
               then r\<lparr>te_state := QUEUED\<rparr> else r) (task_execs w)"
proof -
  obtain now w1 where n: "timezone_now w = (now, w1)" by (cases "timezone_now w")
  then have t: "task_execs w1 = task_execs w" using timezone_now_frame(1) [of w] by simp
  obtain c tbl where k: "wake_tasks now (task_execs w1) = (c, tbl)"
    by (cases "wake_tasks now (task_execs w1)")
  then have "tbl = snd (wake_tasks now (task_execs w))" by (simp add: t)
  with n k show ?thesis by (simp add: wake_up_def record_event_frame wake_tasks_map)
qed

lemma wake_up_schedules: "schedule_execs (wake_up w) = schedule_execs w"
  using timezone_now_frame(2) [of w]
  by (auto simp: wake_up_def record_event_frame split: prod.splits)

lemma wake_up_journal:
  "journal (wake_up w) =
     journal w @ [EvWake (length (filter (\<lambda>r. te_state r = SLEEPING \<and> te_due r \<le> fst (timezone_now w))
                                    (task_execs w)))]"
proof -
  obtain now w1 where n: "timezone_now w = (now, w1)" by (cases "timezone_now w")
  then have t: "task_execs w1 = task_execs w" and j: "journal w1 = journal w"
    using timezone_now_frame [of w] by simp_all
  obtain c tbl where k: "wake_tasks now (task_execs w1) = (c, tbl)"
    by (cases "wake_tasks now (task_execs w1)")
  then have "c = fst (wake_tasks now (task_execs w))" by (simp add: t)
  with n k j show ?thesis by (simp add: wake_up_def record_event_frame wake_tasks_count)
qed

lemma disable_orphans_tasks:
  "task_execs (disable_orphans T S w) =
     map (\<lambda>r. if te_state r \<noteq> INVALID \<and> te_task_name r \<notin> set (registry_keys td_name T)
               then r\<lparr>te_state := INVALID\<rparr> else r) (task_execs w)"
proof -
  obtain c1 stbl where a: "invalidate_schedules S (schedule_execs w) = (c1, stbl)"
    by (cases "invalidate_schedules S (schedule_execs w)")
  obtain c2 ttbl where b: "invalidate_tasks T (task_execs w) = (c2, ttbl)"
    by (cases "invalidate_tasks T (task_execs w)")
  then have "ttbl = snd (invalidate_tasks T (task_execs w))" by simp
  with a b show ?thesis
    by (simp add: disable_orphans_def record_event_frame invalidate_tasks_map)
qed

lemma disable_orphans_schedules:
  "schedule_execs (disable_orphans T S w) =
     map (\<lambda>r. if se_state r \<noteq> SCHEDULE_INVALID \<and> se_name r \<notin> set (registry_keys sd_name S)
               then r\<lparr>se_state := SCHEDULE_INVALID\<rparr> else r) (schedule_execs w)"
proof -
  obtain c1 stbl where a: "invalidate_schedules S (schedule_execs w) = (c1, stbl)"
    by (cases "invalidate_schedules S (schedule_execs w)")
  then have s: "stbl = snd (invalidate_schedules S (schedule_execs w))" by simp
  obtain c2 ttbl where b: "invalidate_tasks T (task_execs w) = (c2, ttbl)"
    by (cases "invalidate_tasks T (task_execs w)")
  with a s show ?thesis
    by (simp add: disable_orphans_def record_event_frame invalidate_schedules_map)
qed

lemma disable_orphans_journal:
  "journal (disable_orphans T S w) =
     journal w @ [EvInvalidateSchedules (fst (invalidate_schedules S (schedule_execs w))),
                  EvInvalidateTasks (fst (invalidate_tasks T (task_execs w)))]"
  by (simp add: disable_orphans_def record_event_frame split: prod.splits)

lemma disable_orphans_clock:
  "clock (disable_orphans T S w) = clock w" "elapse (disable_orphans T S w) = elapse w"
  by (simp_all add: disable_orphans_def record_event_frame split: prod.splits)

section \<open>The wake step\<close>

text \<open>
  C5. The wake step of a tick makes QUEUED exactly the rows that are SLEEPING with a due
  time not after the time read then, and leaves every other row, SLEEPING with a later due
  time or in another state, as it is; it is one bulk update, and touches no schedule row.
\<close>

theorem wake_transitions_due_sleeping_rows:
  "task_execs (wake_up w) =
     map (\<lambda>r. if te_state r = SLEEPING \<and> te_due r \<le> fst (timezone_now w)
               then r\<lparr>te_state := QUEUED\<rparr> else r) (task_execs w)
   \<and> schedule_execs (wake_up w) = schedule_execs w
   \<and> journal (wake_up w) =
       journal w @ [EvWake (length (filter (\<lambda>r. te_state r = SLEEPING \<and> te_due r \<le> fst (timezone_now w))
                                      (task_execs w)))]"
  using wake_up_tasks [of w] wake_up_schedules [of w] wake_up_journal [of w] by simp

theorem wake_transitions_due_sleeping_rows_witness:
  "task_execs (wake_up ex_world) =
     [ex_row ''send_email'' QUEUED 5 1, ex_row ''gone'' QUEUED 1 1,
      ex_row ''boom'' QUEUED 99 2, ex_row ''boom'' SLEEPING 3700 2]
   \<and> journal (wake_up ex_world) = [EvWake 1]"
  using wake_transitions_due_sleeping_rows [of ex_world]
  by (simp add: ex_world_def ex_row_def timezone_now_def)

section \<open>Idempotence of the bulk updates\<close>

lemma invalidate_tasks_twice:
  "snd (invalidate_tasks T (snd (invalidate_tasks T tbl))) = snd (invalidate_tasks T tbl)"
  "fst (invalidate_tasks T (snd (invalidate_tasks T tbl))) = 0"
  by (simp_all add: invalidate_tasks_map invalidate_tasks_count o_def)

lemma invalidate_schedules_twice:
  "snd (invalidate_schedules S (snd (invalidate_schedules S tbl))) = snd (invalidate_schedules S tbl)"
  "fst (invalidate_schedules S (snd (invalidate_schedules S tbl))) = 0"
  by (simp_all add: invalidate_schedules_map invalidate_schedules_count o_def)

lemma wake_tasks_twice:
  "snd (wake_tasks now (snd (wake_tasks now tbl))) = snd (wake_tasks now tbl)"
  "fst (wake_tasks now (snd (wake_tasks now tbl))) = 0"
  by (simp_all add: wake_tasks_map wake_tasks_count o_def)

text \<open>
  C8. Each of the three bulk updates, applied a second time to the table the first
  application gave, with the same registry or the same current time, matches no row and
  gives the same table again.
\<close>

theorem bulk_updates_idempotent:
  "invalidate_schedules S (snd (invalidate_schedules S stbl)) = (0, snd (invalidate_schedules S stbl))
   \<and> invalidate_tasks T (snd (invalidate_tasks T ttbl)) = (0, snd (invalidate_tasks T ttbl))
   \<and> wake_tasks now (snd (wake_tasks now ttbl)) = (0, snd (wake_tasks now ttbl))"
  using invalidate_schedules_twice [of S stbl] invalidate_tasks_twice [of T ttbl]
    wake_tasks_twice [of now ttbl]
  by (simp add: prod_eq_iff)

theorem bulk_updates_idempotent_witness:
  "fst (invalidate_tasks [ex_send_email, ex_boom] (task_execs ex_world)) = 1
   \<and> fst (wake_tasks 100 (task_execs ex_world)) = 1
   \<and> fst (invalidate_schedules [ex_daily_report] (schedule_execs ex_world)) = 1
   \<and> invalidate_tasks [ex_send_email, ex_boom]
       (snd (invalidate_tasks [ex_send_email, ex_boom] (task_execs ex_world)))
     = (0, [ex_row ''send_email'' QUEUED 5 1, ex_row ''gone'' INVALID 1 1,
            ex_row ''boom'' SLEEPING 99 2, ex_row ''boom'' SLEEPING 3700 2])
   \<and> wake_tasks 100 (snd (wake_tasks 100 (task_execs ex_world)))
     = (0, [ex_row ''send_email'' QUEUED 5 1, ex_row ''gone'' QUEUED 1 1,
            ex_row ''boom'' QUEUED 99 2, ex_row ''boom'' SLEEPING 3700 2])
   \<and> invalidate_schedules [ex_daily_report]
       (snd (invalidate_schedules [ex_daily_report] (schedule_execs ex_world)))
     = (0, [\<lparr>se_name = ''old_schedule'', se_state = SCHEDULE_INVALID, se_last_run = None\<rparr>])"
  using bulk_updates_idempotent [of "[ex_daily_report]" "schedule_execs ex_world"
      "[ex_send_email, ex_boom]" "task_execs ex_world" 100]
  by (simp add: invalidate_tasks_map invalidate_tasks_count wake_tasks_map wake_tasks_count
      invalidate_schedules_map invalidate_schedules_count registry_keys_def
      ex_world_def ex_row_def ex_send_email_def ex_boom_def ex_daily_report_def)

section \<open>The claim\<close>

lemma claim_None:
  assumes "qs_first (tasks_execs T q e (task_execs w)) = None"
  shows "claim T q e w = (None, record_event (EvClaim None) w)"
  using assms by (simp add: claim_def)

lemma claim_Some:
  assumes "qs_first (tasks_execs T q e (task_execs w)) = Some (i, r)"
  shows "claim T q e w =
     (Some (i, r\<lparr>te_started := Some (fst (timezone_now w)), te_state := PROCESSING\<rparr>),
      record_event (EvClaim (Some i))
        ((snd (timezone_now w))\<lparr>task_execs :=
           (task_execs w)[i := r\<lparr>te_started := Some (fst (timezone_now w)), te_state := PROCESSING\<rparr>]\<rparr>))"
proof -
  obtain now w1 where n: "timezone_now w = (now, w1)" by (cases "timezone_now w")
  then have "task_execs w1 = task_execs w" using timezone_now_frame(1) [of w] by simp
  with assms n show ?thesis by (simp add: claim_def save_def)
qed

lemma claim_cases:
  obtains (none) "qs_first (tasks_execs T q e (task_execs w)) = None"
      "\<forall>r \<in> set (task_execs w). \<not> spec_eligible T q e r"
      "claim T q e w = (None, record_event (EvClaim None) w)"
  | (some) i where "qs_first (tasks_execs T q e (task_execs w)) = Some (i, task_execs w ! i)"
      "i < length (task_execs w)" "spec_eligible T q e (task_execs w ! i)"
      "\<forall>r' \<in> set (task_execs w). spec_eligible T q e r' \<longrightarrow> spec_not_after T (task_execs w ! i) r'"
      "claim T q e w =
        (Some (i, (task_execs w ! i)\<lparr>te_started := Some (fst (timezone_now w)), te_state := PROCESSING\<rparr>),
         record_event (EvClaim (Some i))
           ((snd (timezone_now w))\<lparr>task_execs :=
              (task_execs w)[i := (task_execs w ! i)\<lparr>te_started := Some (fst (timezone_now w)),
                                                  te_state := PROCESSING\<rparr>]\<rparr>))"
proof (cases "qs_first (tasks_execs T q e (task_execs w))")
  case None
  then show ?thesis using none tasks_execs_first_None claim_None by blast
next
  case (Some x)
  obtain i r where x: "x = (i, r)" by (cases x)
  from Some x have f: "qs_first (tasks_execs T q e (task_execs w)) = Some (i, r)" by simp
  from tasks_execs_first_Some [OF f] have r: "r = task_execs w ! i" by simp
  show ?thesis
    using some [of i] tasks_execs_first_Some [OF f] claim_Some [OF f] f unfolding r by blast
qed

text \<open>
  C1. The claim of a tick considers exactly the eligible rows, those in state QUEUED whose
  task name is the name of a registered definition passing the worker's queue filter. When
  there is none it changes no row. Otherwise the row it takes is eligible and no eligible
  row is before it in the order by descending definition priority (0 for a name without
  definition), then ascending due, then ascending created; that row, and no other, gets
  \<open>started\<close> set to the time read then and its state set to PROCESSING. The sort key the
  code compiles is minus that priority. The transaction and the row lock are the one step
  that \<open>claim\<close> is.
\<close>

theorem claim_takes_top_eligible_row:
  assumes "claim T q e w = (res, w')"
  shows "schedule_execs w' = schedule_execs w
    \<and> order_by_priority_clause (registry_values T) r0 = - spec_priority T (te_task_name r0)
    \<and> (case res of
         None \<Rightarrow> (\<forall>r \<in> set (task_execs w). \<not> spec_eligible T q e r) \<and> task_execs w' = task_execs w
       | Some (i, obj) \<Rightarrow>
           i < length (task_execs w) \<and> spec_eligible T q e (task_execs w ! i)
           \<and> (\<forall>r' \<in> set (task_execs w).
                 spec_eligible T q e r' \<longrightarrow> spec_not_after T (task_execs w ! i) r')
           \<and> obj = (task_execs w ! i)\<lparr>te_started := Some (fst (timezone_now w)),
                                       te_state := PROCESSING\<rparr>
           \<and> task_execs w' = (task_execs w)[i := obj])"
proof (cases rule: claim_cases [of T q e w])
  case none
  with assms show ?thesis
    by (auto simp: record_event_frame order_by_priority_clause_spec registry_values_def)
next
  case (some i)
  with assms timezone_now_frame(2) [of w] show ?thesis
    by (auto simp: record_event_frame order_by_priority_clause_spec registry_values_def)
qed

theorem claim_takes_top_eligible_row_witness:
  "claim [ex_send_email, ex_boom] None None ex_queued_world =
     (Some (3, (ex_row ''boom'' QUEUED 7 1)\<lparr>te_started := Some 102, te_state := PROCESSING\<rparr>),
      \<lparr>task_execs =
         [ex_row ''send_email'' QUEUED 5 1, ex_row ''boom'' QUEUED 9 2, ex_row ''boom'' QUEUED 7 3,
          (ex_row ''boom'' QUEUED 7 1)\<lparr>te_started := Some 102, te_state := PROCESSING\<rparr>,
          ex_row ''gone'' QUEUED 0 0],
       schedule_execs = [], clock = 102, elapse = [], journal = [EvClaim (Some 3)]\<rparr>)
   \<and> spec_eligible [ex_send_email, ex_boom] None None (task_execs ex_queued_world ! 3)
   \<and> spec_eligible [ex_send_email, ex_boom] None None (task_execs ex_queued_world ! 2)
   \<and> spec_not_after [ex_send_email, ex_boom] (task_execs ex_queued_world ! 3)
        (task_execs ex_queued_world ! 2)
   \<and> order_by_priority_clause (registry_values [ex_send_email, ex_boom]) (ex_row ''gone'' QUEUED 0 0)
       = - spec_priority [ex_send_email, ex_boom] (te_task_name (ex_row ''gone'' QUEUED 0 0))"
proof -
  have c: "claim [ex_send_email, ex_boom] None None ex_queued_world =
     (Some (3, (ex_row ''boom'' QUEUED 7 1)\<lparr>te_started := Some 102, te_state := PROCESSING\<rparr>),
      \<lparr>task_execs =
         [ex_row ''send_email'' QUEUED 5 1, ex_row ''boom'' QUEUED 9 2, ex_row ''boom'' QUEUED 7 3,
          (ex_row ''boom'' QUEUED 7 1)\<lparr>te_started := Some 102, te_state := PROCESSING\<rparr>,
          ex_row ''gone'' QUEUED 0 0],
       schedule_execs = [], clock = 102, elapse = [], journal = [EvClaim (Some 3)]\<rparr>)"
    by (simp add: claim_def tasks_execs_def for_queue_def registry_values_def qs_order_by_def
        qs_filter_def qs_first_def objects_def save_def timezone_now_def record_event_def
        ex_queued_world_def ex_row_def ex_send_email_def ex_boom_def)
  have m: "task_execs ex_queued_world ! 2 \<in> set (task_execs ex_queued_world)"
    by (simp add: ex_queued_world_def)
  have e: "spec_eligible [ex_send_email, ex_boom] None None (task_execs ex_queued_world ! 2)"
    by (force simp: spec_eligible_def ex_queued_world_def ex_row_def ex_send_email_def ex_boom_def)
  from claim_takes_top_eligible_row [OF c, of "ex_row ''gone'' QUEUED 0 0"]
  have "spec_eligible [ex_send_email, ex_boom] None None (task_execs ex_queued_world ! 3)
    \<and> (\<forall>r' \<in> set (task_execs ex_queued_world).
         spec_eligible [ex_send_email, ex_boom] None None r' \<longrightarrow>
         spec_not_after [ex_send_email, ex_boom] (task_execs ex_queued_world ! 3) r')
    \<and> order_by_priority_clause (registry_values [ex_send_email, ex_boom]) (ex_row ''gone'' QUEUED 0 0)
       = - spec_priority [ex_send_email, ex_boom] (te_task_name (ex_row ''gone'' QUEUED 0 0))"
    by simp
  with c m e show ?thesis by blast
qed

section \<open>Schedule evaluation and task execution\<close>

lemma get_or_create_schedule_exec_index:
  "fst (get_or_create_schedule_exec n tbl) < length (snd (get_or_create_schedule_exec n tbl))"
proof (cases "qs_first (qs_filter (\<lambda>r. se_name r = n) (objects tbl))")
  case None
  then show ?thesis by (simp add: get_or_create_schedule_exec_def)
next
  case (Some x)
  obtain i r where x: "x = (i, r)" by (cases x)
  with Some have "(i, r) \<in> set (qs_filter (\<lambda>r. se_name r = n) (objects tbl))"
    by (auto simp: qs_first_def split: list.splits)
  then have "i < length tbl" by (auto simp: qs_filter_def objects_set)
  with Some x show ?thesis by (simp add: get_or_create_schedule_exec_def)
qed

lemma schedule_execute_tasks:
  "\<exists>new. task_execs (snd (schedule_execute s d w)) = task_execs w @ new
        \<and> (\<forall>r \<in> set new. te_state r = QUEUED)"
proof -
  obtain i stbl where g: "get_or_create_schedule_exec (sd_name s) (schedule_execs w) = (i, stbl)"
    by (cases "get_or_create_schedule_exec (sd_name s) (schedule_execs w)")
  obtain now w2 where n: "timezone_now (w\<lparr>schedule_execs := stbl\<rparr>) = (now, w2)"
    by (cases "timezone_now (w\<lparr>schedule_execs := stbl\<rparr>)")
  then have t: "task_execs w2 = task_execs w"
    using timezone_now_frame(1) [of "w\<lparr>schedule_execs := stbl\<rparr>"] by simp
  show ?thesis
    using g n t by (auto simp: schedule_execute_def record_event_frame split: option.splits)
qed

lemma schedule_execute_journal:
  "journal (snd (schedule_execute s d w)) =
     journal w @ [EvScheduleExecute (sd_name s) (fst (schedule_execute s d w))]"
proof -
  obtain i stbl where g: "get_or_create_schedule_exec (sd_name s) (schedule_execs w) = (i, stbl)"
    by (cases "get_or_create_schedule_exec (sd_name s) (schedule_execs w)")
  obtain now w2 where n: "timezone_now (w\<lparr>schedule_execs := stbl\<rparr>) = (now, w2)"
    by (cases "timezone_now (w\<lparr>schedule_execs := stbl\<rparr>)")
  then have t: "journal w2 = journal w"
    using timezone_now_frame(3) [of "w\<lparr>schedule_execs := stbl\<rparr>"] by simp
  show ?thesis
    using g n t by (auto simp: schedule_execute_def record_event_frame split: option.splits)
qed

lemma check_schedules_tasks:
  "\<exists>new. task_execs (snd (check_schedules ss d b w)) = task_execs w @ new
        \<and> (\<forall>r \<in> set new. te_state r = QUEUED)"
proof (induction ss arbitrary: b w)
  case Nil
  then show ?case by simp
next
  case (Cons s ss)
  obtain b1 w1 where e: "schedule_execute s d w = (b1, w1)" by (cases "schedule_execute s d w")
  from schedule_execute_tasks [of s d w] e obtain new1 where
    n1: "task_execs w1 = task_execs w @ new1" "\<forall>r \<in> set new1. te_state r = QUEUED" by auto
  from Cons.IH [of "b \<or> b1" w1] obtain new2 where
    n2: "task_execs (snd (check_schedules ss d (b \<or> b1) w1)) = task_execs w1 @ new2"
      "\<forall>r \<in> set new2. te_state r = QUEUED" by auto
  have "task_execs (snd (check_schedules (s # ss) d b w)) = task_execs w @ (new1 @ new2)"
    using e n1 n2 by simp
  moreover have "\<forall>r \<in> set (new1 @ new2). te_state r = QUEUED" using n1 n2 by auto
  ultimately show ?case by blast
qed

lemma check_schedules_journal:
  "\<exists>bs. length bs = length ss
       \<and> journal (snd (check_schedules ss d b w)) =
           journal w @ map2 EvScheduleExecute (map sd_name ss) bs
       \<and> fst (check_schedules ss d b w) = (b \<or> True \<in> set bs)"
proof (induction ss arbitrary: b w)
  case Nil
  then show ?case by simp
next
  case (Cons s ss)
  obtain b1 w1 where e: "schedule_execute s d w = (b1, w1)" by (cases "schedule_execute s d w")
  from schedule_execute_journal [of s d w] e
  have j1: "journal w1 = journal w @ [EvScheduleExecute (sd_name s) b1]" by simp
  from Cons.IH [of "b \<or> b1" w1] obtain bs where
    bs: "length bs = length ss"
      "journal (snd (check_schedules ss d (b \<or> b1) w1)) =
         journal w1 @ map2 EvScheduleExecute (map sd_name ss) bs"
      "fst (check_schedules ss d (b \<or> b1) w1) = ((b \<or> b1) \<or> True \<in> set bs)" by auto
  have "length (b1 # bs) = length (s # ss)" using bs by simp
  moreover have "journal (snd (check_schedules (s # ss) d b w)) =
      journal w @ map2 EvScheduleExecute (map sd_name (s # ss)) (b1 # bs)"
    using e j1 bs by simp
  moreover have "fst (check_schedules (s # ss) d b w) = (b \<or> True \<in> set (b1 # bs))"
    using e bs by auto
  ultimately show ?case by blast
qed

lemma task_execute_eq:
  "task_execute task (i, r) w =
     (True, record_event (EvTaskExecute i True)
        (w\<lparr>task_execs := (task_execs w)
              [i := (case td_callable task () of
                       Returned v \<Rightarrow> r\<lparr>te_state := SUCCEEDED, te_result := Some v\<rparr>
                     | Raised err \<Rightarrow> r\<lparr>te_state := FAILED, te_error := Some err\<rparr>)]\<rparr>))"
  by (simp add: task_execute_def save_def)

lemma registry_getitem_found:
  assumes "n \<in> name_of ` set reg"
  shows "\<exists>d. registry_getitem name_of reg n = Inr d \<and> name_of d = n \<and> d \<in> set reg"
proof -
  from assms have "\<exists>d \<in> set reg. name_of d = n" by auto
  then obtain d where f: "find (\<lambda>d. name_of d = n) reg = Some d"
    by (cases "find (\<lambda>d. name_of d = n) reg") (auto simp: find_None_iff)
  then have "name_of d = n \<and> d \<in> set reg"
    by (auto simp: find_Some_iff)
  with f show ?thesis by (simp add: registry_getitem_def)
qed

lemma spec_eligible_registered:
  "spec_eligible T q e r \<Longrightarrow> te_state r = QUEUED \<and> te_task_name r \<in> td_name ` set T"
  by (auto simp: spec_eligible_def)

section \<open>The shape of a tick\<close>

lemma tick_claim_unfold:
  "tick_claim T S q e d w = (did, te, w4) \<longleftrightarrow>
     did = fst (check_schedules (for_queue sd_queue q e S) d False (disable_orphans T S w))
     \<and> claim T q e (wake_up (snd (check_schedules (for_queue sd_queue q e S) d False
          (disable_orphans T S w)))) = (te, w4)"
  by (auto simp: tick_claim_def Let_def split: prod.splits)

lemma before_claim_length:
  "length (task_execs w) \<le>
   length (task_execs (wake_up (snd (check_schedules ss d b (disable_orphans T S w)))))"
proof -
  obtain new where "task_execs (snd (check_schedules ss d b (disable_orphans T S w))) =
      task_execs (disable_orphans T S w) @ new"
    using check_schedules_tasks [of ss d b "disable_orphans T S w"] by blast
  then show ?thesis by (simp add: wake_up_tasks disable_orphans_tasks)
qed

lemma before_claim_old_row:
  fixes T :: "task_def list" and S :: "schedule_def list" and ss :: "schedule_def list"
    and d :: real and b :: bool and w :: world and i :: nat
  assumes "i < length (task_execs w)"
  defines "r \<equiv> task_execs w ! i"
  defines "r3 \<equiv> task_execs (wake_up (snd (check_schedules ss d b (disable_orphans T S w)))) ! i"
  shows "te_task_name r3 = te_task_name r"
    and "te_state r = INVALID \<or> te_task_name r \<notin> set (registry_keys td_name T) \<Longrightarrow> te_state r3 = INVALID"
    and "te_state r3 = PROCESSING \<Longrightarrow> te_state r = PROCESSING"
    and "te_state r = PROCESSING \<Longrightarrow> te_state r3 \<noteq> QUEUED"
proof -
  let ?w1 = "disable_orphans T S w"
  let ?w2 = "snd (check_schedules ss d b ?w1)"
  obtain new where n: "task_execs ?w2 = task_execs ?w1 @ new"
    using check_schedules_tasks [of ss d b ?w1] by blast
  have l1: "i < length (task_execs ?w1)" using assms(1) by (simp add: disable_orphans_tasks)
  have r1: "task_execs ?w1 ! i =
      (if te_state r \<noteq> INVALID \<and> te_task_name r \<notin> set (registry_keys td_name T)
       then r\<lparr>te_state := INVALID\<rparr> else r)"
    using assms(1) by (simp add: disable_orphans_tasks r_def)
  have r2: "task_execs ?w2 ! i = task_execs ?w1 ! i" using n l1 by (simp add: nth_append)
  have l2: "i < length (task_execs ?w2)" using n l1 by simp
  have r3: "r3 = (if te_state (task_execs ?w2 ! i) = SLEEPING
                     \<and> te_due (task_execs ?w2 ! i) \<le> fst (timezone_now ?w2)
                  then (task_execs ?w2 ! i)\<lparr>te_state := QUEUED\<rparr> else task_execs ?w2 ! i)"
    using l2 by (simp add: r3_def wake_up_tasks)
  show "te_task_name r3 = te_task_name r" by (simp add: r3 r2 r1)
  show "te_state r = INVALID \<or> te_task_name r \<notin> set (registry_keys td_name T) \<Longrightarrow> te_state r3 = INVALID"
    by (auto simp: r3 r2 r1)
  show "te_state r3 = PROCESSING \<Longrightarrow> te_state r = PROCESSING"
    by (auto simp: r3 r2 r1 split: if_splits)
  show "te_state r = PROCESSING \<Longrightarrow> te_state r3 \<noteq> QUEUED"
    by (auto simp: r3 r2 r1 split: if_splits)
qed

lemma before_claim_new_row:
  assumes "length (task_execs w) \<le> i"
    and "i < length (task_execs (wake_up (snd (check_schedules ss d b (disable_orphans T S w)))))"
  shows "te_state (task_execs (wake_up (snd (check_schedules ss d b (disable_orphans T S w)))) ! i)
           = QUEUED"
proof -
  let ?w1 = "disable_orphans T S w"
  let ?w2 = "snd (check_schedules ss d b ?w1)"
  obtain new where n: "task_execs ?w2 = task_execs ?w1 @ new" "\<forall>r \<in> set new. te_state r = QUEUED"
    using check_schedules_tasks [of ss d b ?w1] by blast
  have l1: "length (task_execs ?w1) = length (task_execs w)" by (simp add: disable_orphans_tasks)
  from assms(2) have l2: "i < length (task_execs ?w2)" by (simp add: wake_up_tasks)
  with n l1 assms(1) have "task_execs ?w2 ! i \<in> set new"
    by (simp add: nth_append)
  with n have "te_state (task_execs ?w2 ! i) = QUEUED" by blast
  with l2 show ?thesis by (simp add: wake_up_tasks)
qed

lemma before_claim_journal:
  "\<exists>c1 c2 bs c3. length bs = length ss
     \<and> journal (wake_up (snd (check_schedules ss d b (disable_orphans T S w)))) =
         journal w @ [EvInvalidateSchedules c1, EvInvalidateTasks c2]
           @ map2 EvScheduleExecute (map sd_name ss) bs @ [EvWake c3]
     \<and> fst (check_schedules ss d b (disable_orphans T S w)) = (b \<or> True \<in> set bs)"
proof -
  let ?w1 = "disable_orphans T S w"
  obtain bs where bs: "length bs = length ss"
    "journal (snd (check_schedules ss d b ?w1)) = journal ?w1 @ map2 EvScheduleExecute (map sd_name ss) bs"
    "fst (check_schedules ss d b ?w1) = (b \<or> True \<in> set bs)"
    using check_schedules_journal [of ss d b ?w1] by blast
  show ?thesis
    using bs by (intro exI [of _ bs] exI conjI) (simp_all add: wake_up_journal disable_orphans_journal)
qed

lemma tick_cases:
  assumes w3: "w3 = wake_up (snd (check_schedules (for_queue sd_queue q e S) d False
                  (disable_orphans T S w)))"
    and did: "did = fst (check_schedules (for_queue sd_queue q e S) d False (disable_orphans T S w))"
  obtains (idle)
      "\<forall>r \<in> set (task_execs w3). \<not> spec_eligible T q e r"
      "tick_claim T S q e d w = (did, None, record_event (EvClaim None) w3)"
      "tick T S q e d w = Inr (did, record_event (EvClaim None) w3)"
  | (ran) i obj w4 task where
      "i < length (task_execs w3)"
      "spec_eligible T q e (task_execs w3 ! i)"
      "\<forall>r' \<in> set (task_execs w3). spec_eligible T q e r' \<longrightarrow> spec_not_after T (task_execs w3 ! i) r'"
      "obj = (task_execs w3 ! i)\<lparr>te_started := Some (fst (timezone_now w3)), te_state := PROCESSING\<rparr>"
      "w4 = record_event (EvClaim (Some i))
              ((snd (timezone_now w3))\<lparr>task_execs := (task_execs w3)[i := obj]\<rparr>)"
      "registry_getitem td_name T (te_task_name obj) = Inr task"
      "td_name task = te_task_name obj"
      "tick_claim T S q e d w = (did, Some (i, obj), w4)"
      "tick T S q e d w =
         Inr (True, record_event (EvTaskExecute i True)
           (w4\<lparr>task_execs := (task_execs w4)
              [i := (case td_callable task () of
                       Returned v \<Rightarrow> obj\<lparr>te_state := SUCCEEDED, te_result := Some v\<rparr>
                     | Raised err \<Rightarrow> obj\<lparr>te_state := FAILED, te_error := Some err\<rparr>)]\<rparr>))"
proof (cases rule: claim_cases [of T q e w3])
  case none
  have tc: "tick_claim T S q e d w = (did, None, record_event (EvClaim None) w3)"
    unfolding tick_claim_unfold using none(3) w3 did by simp
  then have "tick T S q e d w = Inr (did, record_event (EvClaim None) w3)"
    by (simp add: tick_def)
  with none(2) tc show ?thesis by (rule idle)
next
  case (some i)
  define obj where "obj = (task_execs w3 ! i)\<lparr>te_started := Some (fst (timezone_now w3)),
                                                te_state := PROCESSING\<rparr>"
  define w4 where "w4 = record_event (EvClaim (Some i))
              ((snd (timezone_now w3))\<lparr>task_execs := (task_execs w3)[i := obj]\<rparr>)"
  have tc: "tick_claim T S q e d w = (did, Some (i, obj), w4)"
    unfolding tick_claim_unfold using some(5) w3 did by (simp add: obj_def w4_def)
  have "te_task_name obj \<in> td_name ` set T"
    using spec_eligible_registered [OF some(3)] by (simp add: obj_def)
  from registry_getitem_found [OF this] obtain task where
    g: "registry_getitem td_name T (te_task_name obj) = Inr task" "td_name task = te_task_name obj"
    by blast
  have "tick T S q e d w =
         Inr (True, record_event (EvTaskExecute i True)
           (w4\<lparr>task_execs := (task_execs w4)
              [i := (case td_callable task () of
                       Returned v \<Rightarrow> obj\<lparr>te_state := SUCCEEDED, te_result := Some v\<rparr>
                     | Raised err \<Rightarrow> obj\<lparr>te_state := FAILED, te_error := Some err\<rparr>)]\<rparr>))"
    using tc g(1) by (simp add: tick_def task_execute_eq)
  with some(2,3,4) obj_def w4_def g tc show ?thesis by (rule ran)
qed

lemma tick_total: "\<exists>did w'. tick T S q e d w = Inr (did, w')"
  by (rule tick_cases [OF refl refl, where T = T and S = S and q = q and e = e and d = d and w = w])
    blast+

lemma map2_schedule_events:
  "ev \<in> set (map2 EvScheduleExecute ns bs) \<Longrightarrow> \<exists>n b. ev = EvScheduleExecute n b"
  by (auto simp: in_set_zip)

lemma map2_schedule_fired:
  "length ns = length bs \<Longrightarrow>
   (\<exists>ev \<in> set (map2 EvScheduleExecute ns bs). \<exists>n. ev = EvScheduleExecute n True) \<longleftrightarrow> True \<in> set bs"
  by (induction ns bs rule: list_induct2) auto

lemma tick_journal:
  obtains did w' did2 te w4 c1 c2 bs c3 where
     "tick T S q e d w = Inr (did, w')"
     "tick_claim T S q e d w = (did2, te, w4)"
     "length bs = length (for_queue sd_queue q e S)"
     "journal w' = journal w @ [EvInvalidateSchedules c1, EvInvalidateTasks c2]
         @ map2 EvScheduleExecute (map sd_name (for_queue sd_queue q e S)) bs
         @ [EvWake c3, EvClaim (map_option fst te)]
         @ (case te of None \<Rightarrow> [] | Some (i, obj) \<Rightarrow> [EvTaskExecute i True])"
     "did = (True \<in> set bs \<or> te \<noteq> None)"
proof -
  let ?ss = "for_queue sd_queue q e S"
  let ?w3 = "wake_up (snd (check_schedules ?ss d False (disable_orphans T S w)))"
  let ?did = "fst (check_schedules ?ss d False (disable_orphans T S w))"
  obtain c1 c2 bs c3 where b: "length bs = length ?ss"
    "journal ?w3 = journal w @ [EvInvalidateSchedules c1, EvInvalidateTasks c2]
       @ map2 EvScheduleExecute (map sd_name ?ss) bs @ [EvWake c3]"
    "?did = (False \<or> True \<in> set bs)"
    using before_claim_journal [of ?ss d False T S w] by blast
  show ?thesis
  proof (rule tick_cases [OF refl refl, where T = T and S = S and q = q and e = e
        and d = d and w = w], goal_cases)
    case 1
    have "journal (record_event (EvClaim None) ?w3) =
        journal w @ [EvInvalidateSchedules c1, EvInvalidateTasks c2]
         @ map2 EvScheduleExecute (map sd_name ?ss) bs
         @ [EvWake c3, EvClaim (map_option fst None)]
         @ (case None :: (nat \<times> task_exec) option of None \<Rightarrow> [] | Some (i, obj) \<Rightarrow> [EvTaskExecute i True])"
      by (simp add: record_event_frame b(2))
    moreover have "?did = (True \<in> set bs \<or> (None :: (nat \<times> task_exec) option) \<noteq> None)"
      using b(3) by simp
    ultimately show ?case using that [OF 1(3) 1(2) b(1)] by blast
  next
    case (2 i obj w4 task)
    have j4: "journal w4 = journal ?w3 @ [EvClaim (Some i)]"
      by (simp add: 2(5) record_event_frame timezone_now_frame)
    have "journal (record_event (EvTaskExecute i True)
           (w4\<lparr>task_execs := (task_execs w4)
              [i := (case td_callable task () of
                       Returned v \<Rightarrow> obj\<lparr>te_state := SUCCEEDED, te_result := Some v\<rparr>
                     | Raised err \<Rightarrow> obj\<lparr>te_state := FAILED, te_error := Some err\<rparr>)]\<rparr>)) =
        journal w @ [EvInvalidateSchedules c1, EvInvalidateTasks c2]
         @ map2 EvScheduleExecute (map sd_name ?ss) bs
         @ [EvWake c3, EvClaim (map_option fst (Some (i, obj)))]
         @ (case Some (i, obj) of None \<Rightarrow> [] | Some (i, obj) \<Rightarrow> [EvTaskExecute i True])"
      by (simp add: record_event_frame j4 b(2))
    moreover have "True = (True \<in> set bs \<or> Some (i, obj) \<noteq> None)" by simp
    ultimately show ?case using that [OF 2(9) 2(8) b(1)] by blast
  qed
qed

section \<open>The outer loop\<close>

lemma handle_loop_exit_once:
  assumes "tick T S (opt_queue opts) (opt_exclude_queue opts) (opt_tick opts) w = Inr (did, w1)"
    and "opt_once opts"
  shows "handle_loop (Suc n) T S opts last_run w = Exited [did] w1"
  using assms by simp

lemma handle_loop_exit_until_done:
  assumes "tick T S (opt_queue opts) (opt_exclude_queue opts) (opt_tick opts) w = Inr (False, w1)"
    and "opt_until_done opts"
  shows "handle_loop (Suc n) T S opts last_run w = Exited [False] w1"
  using assms by simp

lemma handle_loop_until_done:
  assumes "\<not> opt_once opts" and "opt_until_done opts"
  shows "case handle_loop n T S opts last_run w of
           Exited h w' \<Rightarrow> h \<noteq> [] \<and> length h \<le> n \<and> \<not> last h \<and> (\<forall>b \<in> set (butlast h). b)
         | Crashed h err \<Rightarrow> False
         | Running h w' \<Rightarrow> length h = n \<and> (\<forall>b \<in> set h. b)"
proof (induction n arbitrary: last_run w)
  case 0
  then show ?case by simp
next
  case (Suc n)
  obtain did w1 where t:
    "tick T S (opt_queue opts) (opt_exclude_queue opts) (opt_tick opts) w = Inr (did, w1)"
    using tick_total by blast
  show ?case
  proof (cases did)
    case False
    with t assms show ?thesis by simp
  next
    case True
    obtain last_run' w4 where n: "timezone_now w1 = (last_run', w4)" by (cases "timezone_now w1")
    have eq: "handle_loop (Suc n) T S opts last_run w = push True (handle_loop n T S opts last_run' w4)"
      using t True assms n by simp
    show ?thesis
      using Suc.IH [of last_run' w4] unfolding eq
      by (cases "handle_loop n T S opts last_run' w4") auto
  qed
qed

lemma handle_loop_forever:
  assumes "\<not> opt_once opts" and "\<not> opt_until_done opts"
  shows "\<exists>h w'. handle_loop n T S opts last_run w = Running h w' \<and> length h = n"
proof (induction n arbitrary: last_run w)
  case 0
  then show ?case by simp
next
  case (Suc n)
  obtain did w1 where t:
    "tick T S (opt_queue opts) (opt_exclude_queue opts) (opt_tick opts) w = Inr (did, w1)"
    using tick_total by blast
  define w3 where "w3 = (if \<not> did
                       then (let (now, w2) = timezone_now w1;
                                 dt = now - last_run
                             in time_sleep (max 0 (opt_tick opts - dt)) w2)
                       else w1)"
  obtain last_run' w4 where n: "timezone_now w3 = (last_run', w4)" by (cases "timezone_now w3")
  have eq: "handle_loop (Suc n) T S opts last_run w = push did (handle_loop n T S opts last_run' w4)"
    using t assms n unfolding w3_def by (simp add: Let_def)
  from Suc.IH [of last_run' w4] obtain h w' where
    "handle_loop n T S opts last_run' w4 = Running h w'" "length h = n" by blast
  then show ?case unfolding eq by simp
qed

text \<open>
  C6. With the single-tick option the loop leaves after exactly one tick, whatever the tick
  returned. With the run-until-idle option (and not the single-tick option) it leaves at
  the first tick that returns false and at no other: a run that left has false as its last
  result and true before, and a run still looping has seen only true. With neither option
  it is still looping after any number of ticks. No run ends by an exception of the tick.
\<close>

theorem loop_termination_modes:
  "(opt_once opts \<longrightarrow>
      (\<exists>did w'. tick T S (opt_queue opts) (opt_exclude_queue opts) (opt_tick opts)
                   (snd (timezone_now w)) = Inr (did, w')
                \<and> handle (Suc n) T S opts w = Exited [did] w'))
   \<and> (\<not> opt_once opts \<and> opt_until_done opts \<longrightarrow>
      (case handle n T S opts w of
         Exited h w' \<Rightarrow> h \<noteq> [] \<and> length h \<le> n \<and> \<not> last h \<and> (\<forall>b \<in> set (butlast h). b)
       | Crashed h err \<Rightarrow> False
       | Running h w' \<Rightarrow> length h = n \<and> (\<forall>b \<in> set h. b)))
   \<and> (\<not> opt_once opts \<and> \<not> opt_until_done opts \<longrightarrow>
      (\<exists>h w'. handle n T S opts w = Running h w' \<and> length h = n))"
proof -
  obtain last_run w0 where n: "timezone_now w = (last_run, w0)" by (cases "timezone_now w")
  then have h: "handle k T S opts w = handle_loop k T S opts last_run w0" for k
    by (simp add: handle_def)
  obtain did w1 where t:
    "tick T S (opt_queue opts) (opt_exclude_queue opts) (opt_tick opts) w0 = Inr (did, w1)"
    using tick_total by blast
  have "opt_once opts \<longrightarrow>
      (\<exists>did w'. tick T S (opt_queue opts) (opt_exclude_queue opts) (opt_tick opts)
                   (snd (timezone_now w)) = Inr (did, w')
                \<and> handle (Suc n) T S opts w = Exited [did] w')"
    using t handle_loop_exit_once [OF t, of n last_run] by (simp add: n h)
  moreover have "\<not> opt_once opts \<and> opt_until_done opts \<longrightarrow>
      (case handle n T S opts w of
         Exited h w' \<Rightarrow> h \<noteq> [] \<and> length h \<le> n \<and> \<not> last h \<and> (\<forall>b \<in> set (butlast h). b)
       | Crashed h err \<Rightarrow> False
       | Running h w' \<Rightarrow> length h = n \<and> (\<forall>b \<in> set h. b))"
    using handle_loop_until_done [of opts n T S last_run w0] unfolding h by blast
  moreover have "\<not> opt_once opts \<and> \<not> opt_until_done opts \<longrightarrow>
      (\<exists>h w'. handle n T S opts w = Running h w' \<and> length h = n)"
    using handle_loop_forever [of opts n T S last_run w0] unfolding h by blast
  ultimately show ?thesis by blast
qed

lemmas eval_defs = tick_def tick_claim_def disable_orphans_def invalidate_schedules_def
  invalidate_tasks_def schedule_execute_def get_or_create_schedule_exec_def
  wake_up_def wake_tasks_def claim_def tasks_execs_def task_execute_def
  registry_getitem_def registry_keys_def registry_values_def for_queue_def
  qs_update_def qs_filter_def qs_exclude_def qs_order_by_def qs_first_def objects_def
  save_def timezone_now_def record_event_def time_sleep_def handle_def Let_def
  ex_world_def ex_row_def ex_send_email_def ex_boom_def ex_daily_report_def
  ex_options_def ex_queued_world_def ex_idle_world_def ex_after_claim_def ex_after_tick_def

theorem loop_termination_modes_witness:
  "run_history (handle 3 [ex_send_email, ex_boom] [] (ex_options\<lparr>opt_once := True\<rparr>) ex_world)
     = [True]
   \<and> run_history (handle 3 [ex_send_email, ex_boom] [] (ex_options\<lparr>opt_until_done := True\<rparr>) ex_world)
       = [True, True, False]
   \<and> run_history (handle 3 [ex_send_email, ex_boom] [] ex_options ex_world) = [True, True, False]
   \<and> (\<exists>w'. handle 3 [ex_send_email, ex_boom] [] (ex_options\<lparr>opt_once := True\<rparr>) ex_world
           = Exited [True] w')
   \<and> (\<exists>w'. handle 3 [ex_send_email, ex_boom] [] (ex_options\<lparr>opt_until_done := True\<rparr>) ex_world
           = Exited [True, True, False] w')
   \<and> (\<exists>w'. handle 3 [ex_send_email, ex_boom] [] ex_options ex_world
           = Running [True, True, False] w')"
proof -
  have a: "opt_once (ex_options\<lparr>opt_once := True\<rparr>)"
    and b: "\<not> opt_once (ex_options\<lparr>opt_until_done := True\<rparr>)
            \<and> opt_until_done (ex_options\<lparr>opt_until_done := True\<rparr>)"
    and c: "\<not> opt_once ex_options \<and> \<not> opt_until_done ex_options"
    by (simp_all add: ex_options_def)
  have e1: "run_history (handle 3 [ex_send_email, ex_boom] [] (ex_options\<lparr>opt_once := True\<rparr>) ex_world)
     = [True]"
    by (simp add: eval_defs numeral_3_eq_3)
  have e2: "run_history (handle 3 [ex_send_email, ex_boom] [] (ex_options\<lparr>opt_until_done := True\<rparr>) ex_world)
       = [True, True, False]"
    by (simp add: eval_defs numeral_3_eq_3)
  have e3: "run_history (handle 3 [ex_send_email, ex_boom] [] ex_options ex_world) = [True, True, False]"
    by (simp add: eval_defs numeral_3_eq_3)
  from loop_termination_modes [of "ex_options\<lparr>opt_once := True\<rparr>" "[ex_send_email, ex_boom]" "[]"
      ex_world 2] a e1
  have r1: "\<exists>w'. handle 3 [ex_send_email, ex_boom] [] (ex_options\<lparr>opt_once := True\<rparr>) ex_world
           = Exited [True] w'"
    by (auto simp: numeral_3_eq_3)
  from loop_termination_modes [of "ex_options\<lparr>opt_until_done := True\<rparr>" "[ex_send_email, ex_boom]" "[]"
      ex_world 3] b e2
  have r2: "\<exists>w'. handle 3 [ex_send_email, ex_boom] [] (ex_options\<lparr>opt_until_done := True\<rparr>) ex_world
           = Exited [True, True, False] w'"
    by (cases "handle 3 [ex_send_email, ex_boom] [] (ex_options\<lparr>opt_until_done := True\<rparr>) ex_world")
      auto
  from loop_termination_modes [of ex_options "[ex_send_email, ex_boom]" "[]" ex_world 3] c e3
  have r3: "\<exists>w'. handle 3 [ex_send_email, ex_boom] [] ex_options ex_world
           = Running [True, True, False] w'"
    by auto
  from e1 e2 e3 r1 r2 r3 show ?thesis by blast
qed

section \<open>The sleep between ticks\<close>

lemma timezone_now_clock: "clock (snd (timezone_now w)) = fst (timezone_now w)"
  by (simp add: timezone_now_def split: list.splits)

lemma timezone_now_next:
  "fst (timezone_now w) = clock w + (case elapse w of [] \<Rightarrow> 0 | x # _ \<Rightarrow> x)"
  by (simp add: timezone_now_def split: list.splits)

text \<open>
  C7, as the claim states it, fails: in this run of two ticks with a tick interval of 10
  seconds, each tick claims and executes a task, and the loop goes from the first tick to
  the second without any sleep.
\<close>

theorem sleep_after_every_tick_counterexample:
  "run_history (handle 2 [ex_send_email, ex_boom] [] ex_options ex_queued_world) = [True, True]
   \<and> run_journal (handle 2 [ex_send_email, ex_boom] [] ex_options ex_queued_world) =
       [EvInvalidateSchedules 0, EvInvalidateTasks 1, EvWake 0, EvClaim (Some 3),
        EvTaskExecute 3 True, EvInvalidateSchedules 0, EvInvalidateTasks 0,
        EvWake 0, EvClaim (Some 2), EvTaskExecute 2 True]"
  by (simp add: eval_defs numeral_2_eq_2)

text \<open>
  C7, amended. After a tick that returns false and does not end the loop, the loop sleeps
  for the tick interval minus the time elapsed since \<open>last_run\<close>, floored at zero, so
  that the next \<open>last_run\<close> is the old one plus the larger of the interval and the
  elapsed time (plus what passes until the clock is read again). After a tick that returns
  true it does not sleep, and the next tick starts at once. In both cases the store is the
  one the tick left.
\<close>

theorem loop_sleeps_only_after_idle_tick:
  assumes "tick T S (opt_queue opts) (opt_exclude_queue opts) (opt_tick opts) w = Inr (did, w1)"
    and "\<not> opt_once opts" and "\<not> (opt_until_done opts \<and> \<not> did)"
  shows "\<exists>last_run' w'.
     handle_loop (Suc n) T S opts last_run w = push did (handle_loop n T S opts last_run' w')
     \<and> task_execs w' = task_execs w1 \<and> schedule_execs w' = schedule_execs w1
     \<and> (if did
         then journal w' = journal w1 \<and> last_run' = fst (timezone_now w1)
         else journal w' = journal w1 @
                [EvSleep (max 0 (opt_tick opts - (fst (timezone_now w1) - last_run)))]
              \<and> last_run' = last_run + max (opt_tick opts) (fst (timezone_now w1) - last_run)
                  + (case elapse (snd (timezone_now w1)) of [] \<Rightarrow> 0 | x # _ \<Rightarrow> x))"
proof (cases did)
  case True
  obtain last_run' w4 where n: "timezone_now w1 = (last_run', w4)" by (cases "timezone_now w1")
  have "handle_loop (Suc n) T S opts last_run w = push did (handle_loop n T S opts last_run' w4)"
    using assms True n by simp
  moreover have "task_execs w4 = task_execs w1" "schedule_execs w4 = schedule_execs w1"
    "journal w4 = journal w1" "last_run' = fst (timezone_now w1)"
    using n timezone_now_frame [of w1] by simp_all
  ultimately show ?thesis using True by auto
next
  case False
  obtain now w2 where n: "timezone_now w1 = (now, w2)" by (cases "timezone_now w1")
  define w3 where "w3 = time_sleep (max 0 (opt_tick opts - (now - last_run))) w2"
  obtain last_run' w4 where n': "timezone_now w3 = (last_run', w4)" by (cases "timezone_now w3")
  have eq: "handle_loop (Suc n) T S opts last_run w = push did (handle_loop n T S opts last_run' w4)"
    using assms False n n' by (simp add: w3_def)
  have f2: "task_execs w2 = task_execs w1" "schedule_execs w2 = schedule_execs w1"
    "journal w2 = journal w1" "clock w2 = now"
    using n timezone_now_frame [of w1] timezone_now_clock [of w1] by simp_all
  have f3: "task_execs w3 = task_execs w2" "schedule_execs w3 = schedule_execs w2"
    "journal w3 = journal w2 @ [EvSleep (max 0 (opt_tick opts - (now - last_run)))]"
    "clock w3 = clock w2 + max 0 (opt_tick opts - (now - last_run))" "elapse w3 = elapse w2"
    by (simp_all add: w3_def time_sleep_def)
  have f4: "task_execs w4 = task_execs w3" "schedule_execs w4 = schedule_execs w3"
    "journal w4 = journal w3"
    using n' timezone_now_frame [of w3] by simp_all
  have "last_run' = clock w3 + (case elapse w3 of [] \<Rightarrow> 0 | x # _ \<Rightarrow> x)"
    using n' timezone_now_next [of w3] by simp
  then have l: "last_run' = last_run + max (opt_tick opts) (now - last_run)
                  + (case elapse w2 of [] \<Rightarrow> 0 | x # _ \<Rightarrow> x)"
    by (simp add: f3 f2 max_def)
  show ?thesis
    using eq False f2 f3 f4 l n
    by (intro exI [of _ last_run'] exI [of _ w4]) simp
qed

theorem loop_sleeps_only_after_idle_tick_witness:
  "tick [ex_send_email] [] None None 10 ex_idle_world =
     Inr (False, \<lparr>task_execs = [], schedule_execs = [], clock = 103, elapse = [0],
        journal = [EvInvalidateSchedules 0, EvInvalidateTasks 0, EvWake 0, EvClaim None]\<rparr>)
   \<and> (\<exists>w'. handle_loop 1 [ex_send_email] [] ex_options 100 ex_idle_world
          = push False (handle_loop 0 [ex_send_email] [] ex_options 110 w')
        \<and> journal w' = [EvInvalidateSchedules 0, EvInvalidateTasks 0, EvWake 0, EvClaim None,
                         EvSleep 7])"
proof -
  have t: "tick [ex_send_email] [] (opt_queue ex_options) (opt_exclude_queue ex_options)
      (opt_tick ex_options) ex_idle_world =
     Inr (False, \<lparr>task_execs = [], schedule_execs = [], clock = 103, elapse = [0],
        journal = [EvInvalidateSchedules 0, EvInvalidateTasks 0, EvWake 0, EvClaim None]\<rparr>)"
    by (simp add: eval_defs)
  have o: "\<not> opt_once ex_options" "\<not> (opt_until_done ex_options \<and> \<not> False)"
    by (simp_all add: ex_options_def)
  from loop_sleeps_only_after_idle_tick [OF t o, of 0 100] t show ?thesis
    by (auto simp: timezone_now_def ex_options_def)
qed

section \<open>What the tick returns\<close>

lemma drop_journal: "drop (length j) (j @ xs) = xs"
  by simp

text \<open>
  C10. What a tick returns is true exactly when one of its schedule evaluations returned
  true or its task execution did: the entries of the two invalidations, of the wake and of
  the claim in the journal, whatever they count, do not enter it. A tick that returns
  false ends the worker in the run-until-idle mode.
\<close>

theorem did_something_is_schedules_or_task:
  assumes "tick T S q e d w = Inr (did, w')"
  shows "did = (\<exists>ev \<in> set (drop (length (journal w)) (journal w')).
                  (\<exists>n. ev = EvScheduleExecute n True) \<or> (\<exists>i. ev = EvTaskExecute i True))
    \<and> (\<not> did \<and> opt_until_done opts \<and> opt_queue opts = q \<and> opt_exclude_queue opts = e
        \<and> opt_tick opts = d
       \<longrightarrow> handle_loop (Suc n) T S opts last_run w = Exited [False] w')"
proof -
  obtain did0 w0 did2 te w4 c1 c2 bs c3 where t:
    "tick T S q e d w = Inr (did0, w0)"
    "tick_claim T S q e d w = (did2, te, w4)"
    "length bs = length (for_queue sd_queue q e S)"
    "journal w0 = journal w @ [EvInvalidateSchedules c1, EvInvalidateTasks c2]
         @ map2 EvScheduleExecute (map sd_name (for_queue sd_queue q e S)) bs
         @ [EvWake c3, EvClaim (map_option fst te)]
         @ (case te of None \<Rightarrow> [] | Some (i, obj) \<Rightarrow> [EvTaskExecute i True])"
    "did0 = (True \<in> set bs \<or> te \<noteq> None)"
    by (rule tick_journal [of T S q e d w])
  from t(1) assms have same: "did0 = did" "w0 = w'" by simp_all
  let ?ns = "map sd_name (for_queue sd_queue q e S)"
  let ?P = "\<lambda>ev. (\<exists>n. ev = EvScheduleExecute n True) \<or> (\<exists>i. ev = EvTaskExecute i True)"
  have l: "length ?ns = length bs" using t(3) by simp
  have fired: "(\<exists>ev \<in> set (map2 EvScheduleExecute ?ns bs). ?P ev) \<longleftrightarrow> True \<in> set bs"
    using map2_schedule_fired [OF l] map2_schedule_events [of _ ?ns bs] by blast
  have ran: "(\<exists>ev \<in> set (case te of None \<Rightarrow> [] | Some (i, obj) \<Rightarrow> [EvTaskExecute i True]). ?P ev)
        \<longleftrightarrow> te \<noteq> None"
    by (cases te) auto
  define A where "A = [EvInvalidateSchedules c1, EvInvalidateTasks c2]"
  define M where "M = map2 EvScheduleExecute ?ns bs"
  define B where "B = [EvWake c3, EvClaim (map_option fst te)]"
  define R where "R = (case te of None \<Rightarrow> [] | Some (i, obj) \<Rightarrow> [EvTaskExecute i True])"
  have pre: "\<not> (\<exists>ev \<in> set A. ?P ev)" and mid: "\<not> (\<exists>ev \<in> set B. ?P ev)"
    by (simp_all add: A_def B_def)
  have j: "drop (length (journal w)) (journal w0) = A @ M @ B @ R"
    unfolding t(4) drop_journal A_def M_def B_def R_def ..
  have "(\<exists>ev \<in> set (A @ M @ B @ R). ?P ev)
        \<longleftrightarrow> (\<exists>ev \<in> set A. ?P ev) \<or> (\<exists>ev \<in> set M. ?P ev) \<or> (\<exists>ev \<in> set B. ?P ev)
            \<or> (\<exists>ev \<in> set R. ?P ev)"
    unfolding set_append bex_Un ..
  also have "\<dots> \<longleftrightarrow> (True \<in> set bs \<or> te \<noteq> None)"
    using pre mid fired ran unfolding M_def R_def by blast
  finally have "(\<exists>ev \<in> set (drop (length (journal w)) (journal w0)). ?P ev)
        \<longleftrightarrow> (True \<in> set bs \<or> te \<noteq> None)"
    unfolding j .
  then have a: "did = (\<exists>ev \<in> set (drop (length (journal w)) (journal w')). ?P ev)"
    using t(5) same by simp
  have b: "\<not> did \<and> opt_until_done opts \<and> opt_queue opts = q \<and> opt_exclude_queue opts = e
        \<and> opt_tick opts = d
       \<longrightarrow> handle_loop (Suc n) T S opts last_run w = Exited [False] w'"
    using assms by auto
  from a b show ?thesis by blast
qed

theorem did_something_is_schedules_or_task_witness:
  "tick [ex_send_email, ex_boom] [ex_daily_report] (Some [''other'']) None 10 ex_world
     = Inr (False, \<lparr>task_execs =
         [ex_row ''send_email'' QUEUED 5 1, ex_row ''gone'' INVALID 1 1,
          ex_row ''boom'' QUEUED 99 2, ex_row ''boom'' SLEEPING 3700 2],
        schedule_execs = [\<lparr>se_name = ''old_schedule'', se_state = SCHEDULE_INVALID, se_last_run = None\<rparr>],
        clock = 100, elapse = [],
        journal = [EvInvalidateSchedules 1, EvInvalidateTasks 1, EvWake 1, EvClaim None]\<rparr>)
   \<and> run_history (handle_loop 5 [ex_send_email, ex_boom] [ex_daily_report]
        (ex_options\<lparr>opt_queue := Some [''other''], opt_until_done := True\<rparr>) 100 ex_world) = [False]"
proof -
  have t: "tick [ex_send_email, ex_boom] [ex_daily_report] (Some [''other'']) None 10 ex_world
     = Inr (False, \<lparr>task_execs =
         [ex_row ''send_email'' QUEUED 5 1, ex_row ''gone'' INVALID 1 1,
          ex_row ''boom'' QUEUED 99 2, ex_row ''boom'' SLEEPING 3700 2],
        schedule_execs = [\<lparr>se_name = ''old_schedule'', se_state = SCHEDULE_INVALID, se_last_run = None\<rparr>],
        clock = 100, elapse = [],
        journal = [EvInvalidateSchedules 1, EvInvalidateTasks 1, EvWake 1, EvClaim None]\<rparr>)"
    by (simp add: eval_defs)
  from did_something_is_schedules_or_task [OF t,
      of "ex_options\<lparr>opt_queue := Some [''other''], opt_until_done := True\<rparr>" 4 100]
  have "run_history (handle_loop 5 [ex_send_email, ex_boom] [ex_daily_report]
        (ex_options\<lparr>opt_queue := Some [''other''], opt_until_done := True\<rparr>) 100 ex_world) = [False]"
    by (simp add: ex_options_def eval_nat_numeral)
  with t show ?thesis by blast
qed

section \<open>At most one claim and one execution in a tick\<close>

lemma before_claim_processing:
  fixes T :: "task_def list" and S :: "schedule_def list" and ss :: "schedule_def list"
    and d :: real and b :: bool and w :: world and i :: nat
  defines "w3 \<equiv> wake_up (snd (check_schedules ss d b (disable_orphans T S w)))"
  assumes "i < length (task_execs w3)" and "te_state (task_execs w3 ! i) = PROCESSING"
  shows "i < length (task_execs w) \<and> te_state (task_execs w ! i) = PROCESSING"
proof (cases "i < length (task_execs w)")
  case True
  with before_claim_old_row(3) [OF True, of ss d b T S] assms show ?thesis by simp
next
  case False
  then have "length (task_execs w) \<le> i" by simp
  from before_claim_new_row [OF this, of ss d b T S] assms show ?thesis by simp
qed

lemma filter_schedule_events:
  assumes "\<And>n b. \<not> P (EvScheduleExecute n b)"
  shows "filter P (map2 EvScheduleExecute ns bs) = []"
  using assms by (auto simp: filter_empty_conv in_set_zip)

text \<open>
  C2. In a tick, the rows that are PROCESSING after the claim and were not at the start of
  the tick are the claimed row, if there is one, and no other, so at most one; the steps
  after the claim make no row PROCESSING. The tick makes exactly one claim, and it calls
  the \<^verbatim>\<open>execute\<close> of a task at most once, for the claimed row.
\<close>

theorem tick_claims_and_executes_at_most_one:
  assumes "tick_claim T S q e d w = (did, te, w4)" and "tick T S q e d w = Inr (did', w')"
  shows "{i. i < length (task_execs w4) \<and> te_state (task_execs w4 ! i) = PROCESSING
             \<and> \<not> (i < length (task_execs w) \<and> te_state (task_execs w ! i) = PROCESSING)}
           = (case te of None \<Rightarrow> {} | Some (i, obj) \<Rightarrow> {i})
    \<and> card {i. i < length (task_execs w4) \<and> te_state (task_execs w4 ! i) = PROCESSING
             \<and> \<not> (i < length (task_execs w) \<and> te_state (task_execs w ! i) = PROCESSING)} \<le> 1
    \<and> length (task_execs w') = length (task_execs w4)
    \<and> (\<forall>i. i < length (task_execs w') \<and> te_state (task_execs w' ! i) = PROCESSING
           \<longrightarrow> te_state (task_execs w4 ! i) = PROCESSING)
    \<and> filter (\<lambda>ev. \<exists>c. ev = EvClaim c) (drop (length (journal w)) (journal w'))
         = [EvClaim (map_option fst te)]
    \<and> filter (\<lambda>ev. \<exists>i b. ev = EvTaskExecute i b) (drop (length (journal w)) (journal w'))
         = (case te of None \<Rightarrow> [] | Some (i, obj) \<Rightarrow> [EvTaskExecute i True])"
proof -
  let ?ss = "for_queue sd_queue q e S"
  define w3 where "w3 = wake_up (snd (check_schedules ?ss d False (disable_orphans T S w)))"
  let ?New = "\<lambda>w4. {i. i < length (task_execs w4) \<and> te_state (task_execs w4 ! i) = PROCESSING
             \<and> \<not> (i < length (task_execs w) \<and> te_state (task_execs w ! i) = PROCESSING)}"
  have F1: "i < length (task_execs w) \<and> te_state (task_execs w ! i) = PROCESSING"
    if "i < length (task_execs w3)" "te_state (task_execs w3 ! i) = PROCESSING" for i
    using before_claim_processing [of i ?ss d False T S w] that unfolding w3_def by simp
  have F2: "te_state (task_execs w3 ! i) \<noteq> QUEUED"
    if "i < length (task_execs w)" "te_state (task_execs w ! i) = PROCESSING" for i
    using that(2) before_claim_old_row(4) [OF that(1), of ?ss d False T S]
    unfolding w3_def by simp
  \<comment> \<open>the journal\<close>
  obtain did0 w0 did2 te0 w40 c1 c2 bs c3 where t:
    "tick T S q e d w = Inr (did0, w0)"
    "tick_claim T S q e d w = (did2, te0, w40)"
    "length bs = length (for_queue sd_queue q e S)"
    "journal w0 = journal w @ [EvInvalidateSchedules c1, EvInvalidateTasks c2]
         @ map2 EvScheduleExecute (map sd_name (for_queue sd_queue q e S)) bs
         @ [EvWake c3, EvClaim (map_option fst te0)]
         @ (case te0 of None \<Rightarrow> [] | Some (i, obj) \<Rightarrow> [EvTaskExecute i True])"
    "did0 = (True \<in> set bs \<or> te0 \<noteq> None)"
    by (rule tick_journal [of T S q e d w])
  from t(1,2) assms have same: "w0 = w'" "te0 = te" by simp_all
  have R: "filter (\<lambda>ev. \<exists>i b. ev = EvTaskExecute i b)
             (case te of None \<Rightarrow> [] | Some (i, obj) \<Rightarrow> [EvTaskExecute i True])
           = (case te of None \<Rightarrow> [] | Some (i, obj) \<Rightarrow> [EvTaskExecute i True])"
    and R': "filter (\<lambda>ev. \<exists>c. ev = EvClaim c)
             (case te of None \<Rightarrow> [] | Some (i, obj) \<Rightarrow> [EvTaskExecute i True]) = []"
    by (cases te; auto)+
  have J1: "filter (\<lambda>ev. \<exists>c. ev = EvClaim c) (drop (length (journal w)) (journal w'))
         = [EvClaim (map_option fst te)]"
    using t(4) unfolding same drop_journal
    by (simp add: filter_schedule_events R' del: zip_map1 zip_map2)
  have J2: "filter (\<lambda>ev. \<exists>i b. ev = EvTaskExecute i b) (drop (length (journal w)) (journal w'))
         = (case te of None \<Rightarrow> [] | Some (i, obj) \<Rightarrow> [EvTaskExecute i True])"
    using t(4) unfolding same drop_journal
    by (simp add: filter_schedule_events R del: zip_map1 zip_map2)
  \<comment> \<open>the rows\<close>
  have rows: "?New w4 = (case te of None \<Rightarrow> {} | Some (i, obj) \<Rightarrow> {i})
    \<and> length (task_execs w') = length (task_execs w4)
    \<and> (\<forall>i. i < length (task_execs w') \<and> te_state (task_execs w' ! i) = PROCESSING
           \<longrightarrow> te_state (task_execs w4 ! i) = PROCESSING)"
  proof (rule tick_cases [OF w3_def refl], goal_cases)
    case 1
    from 1(2,3) assms have eq: "te = None" "w4 = record_event (EvClaim None) w3" "w' = w4"
      by simp_all
    have "?New w4 = {}" using F1 by (auto simp: eq record_event_frame)
    then show ?case using eq by simp
  next
    case (2 j obj w4' task)
    from 2(8,9) assms have eq: "te = Some (j, obj)" "w4 = w4'"
      "w' = record_event (EvTaskExecute j True)
           (w4\<lparr>task_execs := (task_execs w4)
              [j := (case td_callable task () of
                       Returned v \<Rightarrow> obj\<lparr>te_state := SUCCEEDED, te_result := Some v\<rparr>
                     | Raised err \<Rightarrow> obj\<lparr>te_state := FAILED, te_error := Some err\<rparr>)]\<rparr>)"
      by simp_all
    have t4: "task_execs w4 = (task_execs w3)[j := obj]"
      using 2(5) eq(2) by (simp add: record_event_frame)
    have q: "te_state (task_execs w3 ! j) = QUEUED"
      using spec_eligible_registered [OF 2(2)] by simp
    have p: "te_state obj = PROCESSING" by (simp add: 2(4))
    have "?New w4 = {j}"
    proof (rule set_eqI)
      fix i
      show "i \<in> ?New w4 \<longleftrightarrow> i \<in> {j}"
      proof (cases "i = j")
        case True
        with 2(1) p q F2 [of j] show ?thesis by (auto simp: t4)
      next
        case False
        with F1 [of i] show ?thesis by (auto simp: t4)
      qed
    qed
    moreover have "length (task_execs w') = length (task_execs w4)"
      by (simp add: eq(3) record_event_frame)
    moreover have "te_state (task_execs w4 ! i) = PROCESSING"
      if "i < length (task_execs w')" "te_state (task_execs w' ! i) = PROCESSING" for i
    proof (cases "i = j")
      case True
      with that 2(1) show ?thesis
        by (cases "td_callable task ()") (simp_all add: eq(3) record_event_frame t4)
    next
      case False
      with that show ?thesis by (simp add: eq(3) record_event_frame)
    qed
    ultimately show ?case using eq(1) by simp
  qed
  from rows have n: "?New w4 = (case te of None \<Rightarrow> {} | Some (i, obj) \<Rightarrow> {i})" by blast
  have "card (case te of None \<Rightarrow> {} | Some (i, obj) \<Rightarrow> {i}) \<le> (1::nat)"
    by (cases te) auto
  then have "card (?New w4) \<le> 1" unfolding n .
  with rows J1 J2 show ?thesis by blast
qed

lemma ex_tick_claim:
  "tick_claim [ex_send_email, ex_boom] [ex_daily_report] None None 10 ex_world
     = (True, Some (2, (ex_row ''boom'' PROCESSING 99 2)\<lparr>te_started := Some 100\<rparr>), ex_after_claim)"
  by (simp add: eval_defs)

lemma ex_tick:
  "tick [ex_send_email, ex_boom] [ex_daily_report] None None 10 ex_world = Inr (True, ex_after_tick)"
  by (simp add: eval_defs)

theorem tick_claims_and_executes_at_most_one_witness:
  "tick_claim [ex_send_email, ex_boom] [ex_daily_report] None None 10 ex_world
     = (True, Some (2, (ex_row ''boom'' PROCESSING 99 2)\<lparr>te_started := Some 100\<rparr>), ex_after_claim)
   \<and> tick [ex_send_email, ex_boom] [ex_daily_report] None None 10 ex_world = Inr (True, ex_after_tick)
   \<and> {i. i < length (task_execs ex_after_claim)
          \<and> te_state (task_execs ex_after_claim ! i) = PROCESSING
          \<and> \<not> (i < length (task_execs ex_world) \<and> te_state (task_execs ex_world ! i) = PROCESSING)}
       = {2}
   \<and> filter (\<lambda>ev. \<exists>i b. ev = EvTaskExecute i b)
        (drop (length (journal ex_world)) (journal ex_after_tick)) = [EvTaskExecute 2 True]"
  using tick_claims_and_executes_at_most_one [OF ex_tick_claim ex_tick] ex_tick_claim ex_tick
  by simp

section \<open>Orphaned rows\<close>

lemma tick_keeps_orphan_invalid:
  assumes i: "i < length (task_execs w)"
    and o: "te_task_name (task_execs w ! i) \<notin> set (registry_keys td_name T)"
    and t: "tick T S q e d w = Inr (did, w')"
  shows "i < length (task_execs w')
    \<and> te_task_name (task_execs w' ! i) = te_task_name (task_execs w ! i)
    \<and> te_state (task_execs w' ! i) = INVALID
    \<and> EvClaim (Some i) \<notin> set (drop (length (journal w)) (journal w'))"
proof -
  let ?ss = "for_queue sd_queue q e S"
  define w3 where "w3 = wake_up (snd (check_schedules ?ss d False (disable_orphans T S w)))"
  have l3: "i < length (task_execs w3)"
    using i before_claim_length [of w ?ss d False T S] unfolding w3_def by simp
  have n3: "te_task_name (task_execs w3 ! i) = te_task_name (task_execs w ! i)"
    using before_claim_old_row(1) [OF i, of ?ss d False T S] unfolding w3_def by simp
  have s3: "te_state (task_execs w3 ! i) = INVALID"
    using before_claim_old_row(2) [OF i, of T ?ss d False S] o unfolding w3_def by simp
  obtain c1 c2 bs c3 where j3: "journal w3 = journal w @ [EvInvalidateSchedules c1, EvInvalidateTasks c2]
       @ map2 EvScheduleExecute (map sd_name ?ss) bs @ [EvWake c3]"
    using before_claim_journal [of ?ss d False T S w] unfolding w3_def by blast
  have nm: "EvClaim (Some i) \<notin> set (map2 EvScheduleExecute (map sd_name ?ss) bs)"
    using map2_schedule_events [of "EvClaim (Some i)" "map sd_name ?ss" bs] by auto
  show ?thesis
  proof (rule tick_cases [OF w3_def refl], goal_cases)
    case 1
    from 1(3) t have eq: "w' = record_event (EvClaim None) w3" by simp
    have "drop (length (journal w)) (journal w') =
        [EvInvalidateSchedules c1, EvInvalidateTasks c2]
          @ map2 EvScheduleExecute (map sd_name ?ss) bs @ [EvWake c3, EvClaim None]"
      by (simp add: eq record_event_frame j3)
    with nm have "EvClaim (Some i) \<notin> set (drop (length (journal w)) (journal w'))"
      by (simp del: zip_map1 zip_map2)
    with l3 n3 s3 show ?case by (simp add: eq record_event_frame)
  next
    case (2 j obj w4 task)
    have ne: "j \<noteq> i" using spec_eligible_registered [OF 2(2)] s3 by auto
    from 2(9) t have eq: "w' = record_event (EvTaskExecute j True)
           (w4\<lparr>task_execs := (task_execs w4)
              [j := (case td_callable task () of
                       Returned v \<Rightarrow> obj\<lparr>te_state := SUCCEEDED, te_result := Some v\<rparr>
                     | Raised err \<Rightarrow> obj\<lparr>te_state := FAILED, te_error := Some err\<rparr>)]\<rparr>)"
      by simp
    have t4: "task_execs w4 = (task_execs w3)[j := obj]"
      and j4: "journal w4 = journal w3 @ [EvClaim (Some j)]"
      using 2(5) by (simp_all add: record_event_frame timezone_now_frame)
    have "drop (length (journal w)) (journal w') =
        [EvInvalidateSchedules c1, EvInvalidateTasks c2]
          @ map2 EvScheduleExecute (map sd_name ?ss) bs
          @ [EvWake c3, EvClaim (Some j), EvTaskExecute j True]"
      by (simp add: eq record_event_frame j4 j3)
    with nm ne have "EvClaim (Some i) \<notin> set (drop (length (journal w)) (journal w'))"
      by (simp del: zip_map1 zip_map2)
    with l3 n3 s3 ne show ?case by (simp add: eq record_event_frame t4)
  qed
qed

text \<open>
  C3. The orphan step of a tick sets to INVALID every TaskExec row that is not INVALID and
  whose task name is no key of the task registry, and every ScheduleExec row alike with the
  schedule registry, and leaves every other row as it is. A TaskExec row whose task name is
  no key of the registry is INVALID after the tick, keeps its name, and is not the row the
  tick claims; as it is still such a row then, the same holds in every later tick.
\<close>

theorem orphans_become_invalid_and_are_not_claimed:
  "task_execs (disable_orphans T S w) =
     map (\<lambda>r. if te_state r \<noteq> INVALID \<and> te_task_name r \<notin> set (registry_keys td_name T)
               then r\<lparr>te_state := INVALID\<rparr> else r) (task_execs w)
   \<and> schedule_execs (disable_orphans T S w) =
     map (\<lambda>r. if se_state r \<noteq> SCHEDULE_INVALID \<and> se_name r \<notin> set (registry_keys sd_name S)
               then r\<lparr>se_state := SCHEDULE_INVALID\<rparr> else r) (schedule_execs w)
   \<and> (\<forall>i did w'. i < length (task_execs w)
         \<and> te_task_name (task_execs w ! i) \<notin> set (registry_keys td_name T)
         \<and> tick T S q e d w = Inr (did, w')
       \<longrightarrow> i < length (task_execs w')
         \<and> te_task_name (task_execs w' ! i) = te_task_name (task_execs w ! i)
         \<and> te_state (task_execs w' ! i) = INVALID
         \<and> EvClaim (Some i) \<notin> set (drop (length (journal w)) (journal w')))"
  using disable_orphans_tasks [of T S w] disable_orphans_schedules [of T S w]
    tick_keeps_orphan_invalid [of _ w T S q e d]
  by blast

theorem orphans_become_invalid_and_are_not_claimed_witness:
  "task_execs (disable_orphans [ex_send_email, ex_boom] [ex_daily_report] ex_world) =
     [ex_row ''send_email'' QUEUED 5 1, ex_row ''gone'' INVALID 1 1,
      ex_row ''boom'' SLEEPING 99 2, ex_row ''boom'' SLEEPING 3700 2]
   \<and> schedule_execs (disable_orphans [ex_send_email, ex_boom] [ex_daily_report] ex_world) =
     [\<lparr>se_name = ''old_schedule'', se_state = SCHEDULE_INVALID, se_last_run = None\<rparr>]
   \<and> te_state (task_execs ex_world ! 1) = QUEUED
   \<and> te_state (task_execs ex_after_tick ! 1) = INVALID
   \<and> EvClaim (Some 1) \<notin> set (drop (length (journal ex_world)) (journal ex_after_tick))"
proof -
  have o: "1 < length (task_execs ex_world)
         \<and> te_task_name (task_execs ex_world ! 1)
             \<notin> set (registry_keys td_name [ex_send_email, ex_boom])"
    by (simp add: ex_world_def ex_row_def registry_keys_def ex_send_email_def ex_boom_def)
  from orphans_become_invalid_and_are_not_claimed
    [of "[ex_send_email, ex_boom]" "[ex_daily_report]" ex_world None None 10] o ex_tick
  have "te_state (task_execs ex_after_tick ! 1) = INVALID
      \<and> EvClaim (Some 1) \<notin> set (drop (length (journal ex_world)) (journal ex_after_tick))"
    by blast
  moreover have "task_execs (disable_orphans [ex_send_email, ex_boom] [ex_daily_report] ex_world) =
     [ex_row ''send_email'' QUEUED 5 1, ex_row ''gone'' INVALID 1 1,
      ex_row ''boom'' SLEEPING 99 2, ex_row ''boom'' SLEEPING 3700 2]
   \<and> schedule_execs (disable_orphans [ex_send_email, ex_boom] [ex_daily_report] ex_world) =
     [\<lparr>se_name = ''old_schedule'', se_state = SCHEDULE_INVALID, se_last_run = None\<rparr>]
   \<and> te_state (task_execs ex_world ! 1) = QUEUED"
    by (simp add: eval_defs)
  ultimately show ?thesis by blast
qed

section \<open>A task that fails\<close>

text \<open>
  C9. When a tick claims a row and the callable of its task raises, the tick returns
  normally with true, the claimed row is stored as FAILED with the failure detail, and the
  next tick returns normally as well.
\<close>

theorem raised_failure_is_stored_and_tick_returns:
  assumes "tick_claim T S q e d w = (did, Some (i, obj), w4)"
    and "registry_getitem td_name T (te_task_name obj) = Inr task"
    and "td_callable task () = Raised err"
  shows "\<exists>w'. tick T S q e d w = Inr (True, w')
     \<and> i < length (task_execs w')
     \<and> task_execs w' ! i = obj\<lparr>te_state := FAILED, te_error := Some err\<rparr>
     \<and> te_state obj = PROCESSING
     \<and> journal w' = journal w4 @ [EvTaskExecute i True]
     \<and> (\<exists>did'' w''. tick T S q e d w' = Inr (did'', w''))"
proof -
  let ?ss = "for_queue sd_queue q e S"
  define w3 where "w3 = wake_up (snd (check_schedules ?ss d False (disable_orphans T S w)))"
  define w' where "w' = record_event (EvTaskExecute i True)
       (w4\<lparr>task_execs := (task_execs w4)[i := obj\<lparr>te_state := FAILED, te_error := Some err\<rparr>]\<rparr>)"
  have tk: "tick T S q e d w = Inr (True, w')"
    using assms by (simp add: tick_def task_execute_eq w'_def)
  have "i < length (task_execs w4) \<and> te_state obj = PROCESSING"
  proof (rule tick_cases [OF w3_def refl], goal_cases)
    case 1
    with assms(1) show ?case by simp
  next
    case (2 j obj' w4' task')
    from 2(8) assms(1) have "j = i" "obj' = obj" "w4' = w4" by simp_all
    with 2(1,4,5) show ?case by (simp add: record_event_frame)
  qed
  then have "i < length (task_execs w')
     \<and> task_execs w' ! i = obj\<lparr>te_state := FAILED, te_error := Some err\<rparr>
     \<and> te_state obj = PROCESSING
     \<and> journal w' = journal w4 @ [EvTaskExecute i True]"
    by (simp add: w'_def record_event_frame)
  with tk tick_total [of T S q e d w'] show ?thesis by blast
qed

theorem raised_failure_is_stored_and_tick_returns_witness:
  "tick [ex_send_email, ex_boom] [ex_daily_report] None None 10 ex_world = Inr (True, ex_after_tick)
   \<and> task_execs ex_after_tick ! 2 =
       (ex_row ''boom'' FAILED 99 2)\<lparr>te_started := Some 100, te_error := Some ''ValueError: boom''\<rparr>
   \<and> (\<exists>did'' w''. tick [ex_send_email, ex_boom] [ex_daily_report] None None 10 ex_after_tick
          = Inr (did'', w''))"
proof -
  have g: "registry_getitem td_name [ex_send_email, ex_boom]
      (te_task_name ((ex_row ''boom'' PROCESSING 99 2)\<lparr>te_started := Some 100\<rparr>)) = Inr ex_boom"
    by (simp add: registry_getitem_def ex_row_def ex_send_email_def ex_boom_def)
  have r: "td_callable ex_boom () = Raised ''ValueError: boom''"
    by (simp add: ex_boom_def)
  from raised_failure_is_stored_and_tick_returns [OF ex_tick_claim g r] ex_tick
  show ?thesis by (auto simp: ex_row_def)
qed

section \<open>The order of the phases\<close>

lemma check_schedules_results:
  "length (schedule_results ss d w) = length ss
   \<and> journal (snd (check_schedules ss d b w)) =
       journal w @ map2 EvScheduleExecute (map sd_name ss) (schedule_results ss d w)
   \<and> fst (check_schedules ss d b w) = (b \<or> True \<in> set (schedule_results ss d w))"
proof (induction ss arbitrary: b w)
  case Nil
  then show ?case by simp
next
  case (Cons s ss)
  obtain b1 w1 where e: "schedule_execute s d w = (b1, w1)" by (cases "schedule_execute s d w")
  from schedule_execute_journal [of s d w] e
  have j1: "journal w1 = journal w @ [EvScheduleExecute (sd_name s) b1]" by simp
  from Cons.IH [of w1 "b \<or> b1"] e j1 show ?case by auto
qed

lemma claim_journal:
  "journal (snd (claim T q e w)) = journal w @ [EvClaim (map_option fst (fst (claim T q e w)))]"
  by (cases rule: claim_cases [of T q e w])
    (simp_all add: record_event_frame timezone_now_frame)

text \<open>
  C4. Every tick returns, and its phases run in this order, each on the store the one
  before it left. First the orphans are marked, schedules then tasks, in the store the tick
  started from: the two tables become the marked ones and the journal gets the two
  invalidations with the numbers of orphans of that store. Then every schedule of the
  worker's queues is evaluated, in registry order, starting from the store with the orphans
  marked. Then the wake runs on the store the evaluations left, then the claim on the woken
  store, and last the execution of the claimed task, if there is one, on the store the
  claim left. So no schedule evaluation and no claim comes before the orphans are marked.
\<close>

theorem tick_phases_in_order:
  fixes T :: "task_def list" and S :: "schedule_def list" and q e :: "string list option"
    and d :: real and w :: world
  defines "ss \<equiv> for_queue sd_queue q e S"
  defines "w1 \<equiv> disable_orphans T S w"
  defines "w2 \<equiv> snd (check_schedules ss d False w1)"
  defines "w3 \<equiv> wake_up w2"
  defines "w4 \<equiv> snd (claim T q e w3)"
  shows "\<exists>did w'. tick T S q e d w = Inr (did, w')
    \<and> schedule_execs w1 =
        map (\<lambda>r. if se_state r \<noteq> SCHEDULE_INVALID \<and> se_name r \<notin> set (registry_keys sd_name S)
                  then r\<lparr>se_state := SCHEDULE_INVALID\<rparr> else r) (schedule_execs w)
    \<and> task_execs w1 =
        map (\<lambda>r. if te_state r \<noteq> INVALID \<and> te_task_name r \<notin> set (registry_keys td_name T)
                  then r\<lparr>te_state := INVALID\<rparr> else r) (task_execs w)
    \<and> journal w1 = journal w @
        [EvInvalidateSchedules (length (filter
            (\<lambda>r. se_state r \<noteq> SCHEDULE_INVALID \<and> se_name r \<notin> set (registry_keys sd_name S))
            (schedule_execs w))),
         EvInvalidateTasks (length (filter
            (\<lambda>r. te_state r \<noteq> INVALID \<and> te_task_name r \<notin> set (registry_keys td_name T))
            (task_execs w)))]
    \<and> journal w2 = journal w1 @ map2 EvScheduleExecute (map sd_name ss) (schedule_results ss d w1)
    \<and> length (schedule_results ss d w1) = length ss
    \<and> task_execs w3 =
        map (\<lambda>r. if te_state r = SLEEPING \<and> te_due r \<le> fst (timezone_now w2)
                  then r\<lparr>te_state := QUEUED\<rparr> else r) (task_execs w2)
    \<and> journal w3 = journal w2 @
        [EvWake (length (filter (\<lambda>r. te_state r = SLEEPING \<and> te_due r \<le> fst (timezone_now w2))
                          (task_execs w2)))]
    \<and> journal w4 = journal w3 @ [EvClaim (map_option fst (fst (claim T q e w3)))]
    \<and> (case fst (claim T q e w3) of
         None \<Rightarrow> w' = w4 \<and> did = (True \<in> set (schedule_results ss d w1))
       | Some (i, obj) \<Rightarrow>
           did \<and> i < length (task_execs w3) \<and> spec_eligible T q e (task_execs w3 ! i)
           \<and> task_execs w4 = (task_execs w3)[i := obj] \<and> te_state obj = PROCESSING
           \<and> journal w' = journal w4 @ [EvTaskExecute i True]
           \<and> (\<exists>task. registry_getitem td_name T (te_task_name obj) = Inr task
                 \<and> w' = snd (task_execute task (i, obj) w4)))"
proof -
  have r: "length (schedule_results ss d w1) = length ss"
    "journal w2 = journal w1 @ map2 EvScheduleExecute (map sd_name ss) (schedule_results ss d w1)"
    "fst (check_schedules ss d False w1) = (True \<in> set (schedule_results ss d w1))"
    using check_schedules_results [of ss d w1 False] unfolding w2_def by simp_all
  have o: "schedule_execs w1 =
        map (\<lambda>r. if se_state r \<noteq> SCHEDULE_INVALID \<and> se_name r \<notin> set (registry_keys sd_name S)
                  then r\<lparr>se_state := SCHEDULE_INVALID\<rparr> else r) (schedule_execs w)"
    "task_execs w1 =
        map (\<lambda>r. if te_state r \<noteq> INVALID \<and> te_task_name r \<notin> set (registry_keys td_name T)
                  then r\<lparr>te_state := INVALID\<rparr> else r) (task_execs w)"
    "journal w1 = journal w @
        [EvInvalidateSchedules (length (filter
            (\<lambda>r. se_state r \<noteq> SCHEDULE_INVALID \<and> se_name r \<notin> set (registry_keys sd_name S))
            (schedule_execs w))),
         EvInvalidateTasks (length (filter
            (\<lambda>r. te_state r \<noteq> INVALID \<and> te_task_name r \<notin> set (registry_keys td_name T))
            (task_execs w)))]"
  proof -
    obtain c1 stbl where a: "invalidate_schedules S (schedule_execs w) = (c1, stbl)"
      by (cases "invalidate_schedules S (schedule_execs w)")
    obtain c2 ttbl where b: "invalidate_tasks T (task_execs w) = (c2, ttbl)"
      by (cases "invalidate_tasks T (task_execs w)")
    have w1: "w1 = record_event (EvInvalidateTasks c2)
        ((record_event (EvInvalidateSchedules c1) (w\<lparr>schedule_execs := stbl\<rparr>))
           \<lparr>task_execs := ttbl\<rparr>)"
      unfolding w1_def disable_orphans_def using a b by (simp add: record_event_frame)
    have s: "stbl = snd (invalidate_schedules S (schedule_execs w))"
      "c1 = fst (invalidate_schedules S (schedule_execs w))"
      "ttbl = snd (invalidate_tasks T (task_execs w))"
      "c2 = fst (invalidate_tasks T (task_execs w))"
      using a b by simp_all
    show "schedule_execs w1 =
        map (\<lambda>r. if se_state r \<noteq> SCHEDULE_INVALID \<and> se_name r \<notin> set (registry_keys sd_name S)
                  then r\<lparr>se_state := SCHEDULE_INVALID\<rparr> else r) (schedule_execs w)"
      unfolding w1 by (simp add: record_event_frame s(1) invalidate_schedules_map)
    show "task_execs w1 =
        map (\<lambda>r. if te_state r \<noteq> INVALID \<and> te_task_name r \<notin> set (registry_keys td_name T)
                  then r\<lparr>te_state := INVALID\<rparr> else r) (task_execs w)"
      unfolding w1 by (simp add: record_event_frame s(3) invalidate_tasks_map)
    show "journal w1 = journal w @
        [EvInvalidateSchedules (length (filter
            (\<lambda>r. se_state r \<noteq> SCHEDULE_INVALID \<and> se_name r \<notin> set (registry_keys sd_name S))
            (schedule_execs w))),
         EvInvalidateTasks (length (filter
            (\<lambda>r. te_state r \<noteq> INVALID \<and> te_task_name r \<notin> set (registry_keys td_name T))
            (task_execs w)))]"
      unfolding w1
      by (simp add: record_event_frame s(2,4) invalidate_schedules_count invalidate_tasks_count)
  qed
  have k: "task_execs w3 =
        map (\<lambda>r. if te_state r = SLEEPING \<and> te_due r \<le> fst (timezone_now w2)
                  then r\<lparr>te_state := QUEUED\<rparr> else r) (task_execs w2)"
    "journal w3 = journal w2 @
        [EvWake (length (filter (\<lambda>r. te_state r = SLEEPING \<and> te_due r \<le> fst (timezone_now w2))
                          (task_execs w2)))]"
    unfolding w3_def by (simp_all only: wake_up_tasks wake_up_journal)
  have c: "journal w4 = journal w3 @ [EvClaim (map_option fst (fst (claim T q e w3)))]"
    unfolding w4_def by (rule claim_journal)
  have w3_eq: "w3 = wake_up (snd (check_schedules (for_queue sd_queue q e S) d False
                  (disable_orphans T S w)))"
    unfolding w3_def w2_def w1_def ss_def ..
  have "\<exists>did w'. tick T S q e d w = Inr (did, w')
    \<and> (case fst (claim T q e w3) of
         None \<Rightarrow> w' = w4 \<and> did = (True \<in> set (schedule_results ss d w1))
       | Some (i, obj) \<Rightarrow>
           did \<and> i < length (task_execs w3) \<and> spec_eligible T q e (task_execs w3 ! i)
           \<and> task_execs w4 = (task_execs w3)[i := obj] \<and> te_state obj = PROCESSING
           \<and> journal w' = journal w4 @ [EvTaskExecute i True]
           \<and> (\<exists>task. registry_getitem td_name T (te_task_name obj) = Inr task
                 \<and> w' = snd (task_execute task (i, obj) w4)))"
  proof (rule tick_cases [OF w3_eq refl], goal_cases)
    case 1
    from 1(2) have cl: "claim T q e w3 = (None, record_event (EvClaim None) w3)"
      unfolding tick_claim_unfold w3_eq by simp
    have "fst (check_schedules (for_queue sd_queue q e S) d False (disable_orphans T S w))
        = (True \<in> set (schedule_results ss d w1))"
      using r(3) unfolding w1_def ss_def .
    with 1(3) cl show ?case by (simp add: w4_def)
  next
    case (2 i obj w4' task)
    from 2(8) have cl: "claim T q e w3 = (Some (i, obj), w4')"
      unfolding tick_claim_unfold w3_eq by simp
    then have w4': "w4' = w4" by (simp add: w4_def)
    have t4: "task_execs w4 = (task_execs w3)[i := obj]"
      using 2(5) w4' by (simp add: record_event_frame)
    have p: "te_state obj = PROCESSING" by (simp add: 2(4))
    have "journal (snd (task_execute task (i, obj) w4)) = journal w4 @ [EvTaskExecute i True]"
      by (simp add: task_execute_eq record_event_frame)
    moreover have "tick T S q e d w = Inr (True, snd (task_execute task (i, obj) w4))"
      using 2(9) w4' by (simp add: task_execute_eq)
    ultimately show ?case using cl 2(1,2,6) t4 p by auto
  qed
  with r(1,2) o k c show ?thesis by blast
qed

theorem tick_phases_in_order_witness:
  "tick [ex_send_email, ex_boom] [ex_daily_report] None None 10 ex_world = Inr (True, ex_after_tick)
   \<and> task_execs (disable_orphans [ex_send_email, ex_boom] [ex_daily_report] ex_world) =
       [ex_row ''send_email'' QUEUED 5 1, ex_row ''gone'' INVALID 1 1,
        ex_row ''boom'' SLEEPING 99 2, ex_row ''boom'' SLEEPING 3700 2]
   \<and> schedule_results [ex_daily_report] 10
        (disable_orphans [ex_send_email, ex_boom] [ex_daily_report] ex_world) = [True]
   \<and> fst (claim [ex_send_email, ex_boom] None None
        (wake_up (snd (check_schedules [ex_daily_report] 10 False
           (disable_orphans [ex_send_email, ex_boom] [ex_daily_report] ex_world)))))
       = Some (2, (ex_row ''boom'' PROCESSING 99 2)\<lparr>te_started := Some 100\<rparr>)
   \<and> journal ex_after_tick =
       [EvInvalidateSchedules 1, EvInvalidateTasks 1, EvScheduleExecute ''daily_report'' True,
        EvWake 1, EvClaim (Some 2), EvTaskExecute 2 True]"
proof -
  have concrete:
    "task_execs (disable_orphans [ex_send_email, ex_boom] [ex_daily_report] ex_world) =
       [ex_row ''send_email'' QUEUED 5 1, ex_row ''gone'' INVALID 1 1,
        ex_row ''boom'' SLEEPING 99 2, ex_row ''boom'' SLEEPING 3700 2]
   \<and> schedule_results [ex_daily_report] 10
        (disable_orphans [ex_send_email, ex_boom] [ex_daily_report] ex_world) = [True]
   \<and> fst (claim [ex_send_email, ex_boom] None None
        (wake_up (snd (check_schedules [ex_daily_report] 10 False
           (disable_orphans [ex_send_email, ex_boom] [ex_daily_report] ex_world)))))
       = Some (2, (ex_row ''boom'' PROCESSING 99 2)\<lparr>te_started := Some 100\<rparr>)
   \<and> journal ex_after_tick =
       [EvInvalidateSchedules 1, EvInvalidateTasks 1, EvScheduleExecute ''daily_report'' True,
        EvWake 1, EvClaim (Some 2), EvTaskExecute 2 True]"
    by (simp add: eval_defs)
  from tick_phases_in_order [of "[ex_send_email, ex_boom]" "[ex_daily_report]" None None 10 ex_world]
    ex_tick concrete
  show ?thesis by blast
qed

end
